theory Spec2Isabelle
  imports Main
begin

section \<open>Strings and constants\<close>

text \<open>
  A JavaScript string is a sequence of UTF-16 code units. The connective glyphs of the
  program lie outside ASCII, and the regular expressions of the program (which carry no
  \<open>u\<close> flag) work on code units, so a string is modelled as the list of its code units.
  A token list is a list of strings.
\<close>

type_synonym jschar = nat
type_synonym jsstring = "jschar list"

text \<open>\<open>SYMBOLS\<close>: NOT is U+00AC, AND U+2227, OR U+2228, IMP U+21D2, IFF U+21D4.\<close>

definition SYM_NOT :: jsstring where "SYM_NOT = [172]"
definition SYM_AND :: jsstring where "SYM_AND = [8743]"
definition SYM_OR :: jsstring where "SYM_OR = [8744]"
definition SYM_IMP :: jsstring where "SYM_IMP = [8658]"
definition SYM_IFF :: jsstring where "SYM_IFF = [8660]"

text \<open>The string literals \<open>'('\<close>, \<open>')'\<close>, \<open>'ERR'\<close>, \<open>'0'\<close>, \<open>'1'\<close>, \<open>'T'\<close>, \<open>'F'\<close>.\<close>

definition LPAREN :: jsstring where "LPAREN = [40]"
definition RPAREN :: jsstring where "RPAREN = [41]"
definition ERR :: jsstring where "ERR = [69, 82, 82]"
definition LIT0 :: jsstring where "LIT0 = [48]"
definition LIT1 :: jsstring where "LIT1 = [49]"
definition LITT :: jsstring where "LITT = [84]"
definition LITF :: jsstring where "LITF = [70]"

lemmas sym_defs = SYM_NOT_def SYM_AND_def SYM_OR_def SYM_IMP_def SYM_IFF_def
  LPAREN_def RPAREN_def ERR_def LIT0_def LIT1_def LITT_def LITF_def

text \<open>
  \<open>PRECEDENCE\<close> is an object with five own keys; a lookup of any other string is
  \<open>undefined\<close>, modelled as \<open>None\<close>. (A name inherited from the object prototype, such
  as \<open>constructor\<close>, yields a function or an object; every use of the looked-up value in
  the program is a \<open><\<close> comparison with a number, which is false for such a value as it
  is for \<open>undefined\<close>, so the two cases behave alike.)
\<close>

definition PRECEDENCE :: "jsstring \<Rightarrow> nat option" where
  "PRECEDENCE t =
     (if t = SYM_NOT then Some 5
      else if t = SYM_AND then Some 4
      else if t = SYM_OR then Some 3
      else if t = SYM_IMP then Some 2
      else if t = SYM_IFF then Some 1
      else None)"

section \<open>The expression tree\<close>

text \<open>
  \<open>ASTNode\<close> has a type tag \<open>'ATOM'\<close>, \<open>'NOT'\<close> or \<open>'BIN'\<close>, a value and up to two
  children. An atom has no child, a negation has the left child only (its value is always
  the NOT glyph), a binary node has both.
\<close>

datatype ASTNode =
    ATOM jsstring
  | NOT ASTNode
  | BIN jsstring ASTNode ASTNode

fun toFullString :: "ASTNode \<Rightarrow> jsstring" where
  "toFullString (ATOM v) = v"
| "toFullString (NOT l) = [40] @ SYM_NOT @ [32] @ toFullString l @ [41]"
| "toFullString (BIN v l r) =
     [40] @ toFullString l @ [32] @ v @ [32] @ toFullString r @ [41]"

section \<open>The parser\<close>

text \<open>\<open>isBalanced\<close>: the loop over the tokens with its early return.\<close>

fun isBalanced_loop :: "jsstring list \<Rightarrow> int \<Rightarrow> bool" where
  "isBalanced_loop [] bal = (bal = 0)"
| "isBalanced_loop (t # ts) bal =
     (let bal1 = (if t = LPAREN then bal + 1 else bal);
          bal2 = (if t = RPAREN then bal1 - 1 else bal1)
      in if bal2 < 0 then False else isBalanced_loop ts bal2)"

definition isBalanced :: "jsstring list \<Rightarrow> bool" where
  "isBalanced toks = isBalanced_loop toks 0"

text \<open>
  \<open>findSplit\<close>: the loop runs \<open>i\<close> from \<open>toks.length - 1\<close> down to \<open>0\<close>. The second
  argument of the loop function is \<open>i + 1\<close>, the number of tokens not yet scanned.
  The result is the index of the split, or \<open>-1\<close>.
\<close>

fun findSplit_loop :: "jsstring list \<Rightarrow> nat \<Rightarrow> int \<Rightarrow> int \<Rightarrow> nat \<Rightarrow> int" where
  "findSplit_loop toks 0 balance splitIdx minPrec = splitIdx"
| "findSplit_loop toks (Suc i) balance splitIdx minPrec =
     (let t = toks ! i in
      if t = RPAREN then findSplit_loop toks i (balance + 1) splitIdx minPrec
      else if t = LPAREN then findSplit_loop toks i (balance - 1) splitIdx minPrec
      else if balance = 0 then
        (if t = SYM_NOT then findSplit_loop toks i balance splitIdx minPrec
         else
           (let prec = (case PRECEDENCE t of Some p \<Rightarrow> p | None \<Rightarrow> 100) in
            if prec < 100 \<and> prec < minPrec
            then findSplit_loop toks i balance (int i) prec
            else findSplit_loop toks i balance splitIdx minPrec))
      else findSplit_loop toks i balance splitIdx minPrec)"

definition findSplit :: "jsstring list \<Rightarrow> int" where
  "findSplit toks = findSplit_loop toks (length toks) 0 (- 1) 100"

text \<open>
  The \<open>while\<close> loop that strips outer parentheses. \<open>tokens.slice(1, -1)\<close> drops the first
  and the last token. On the empty list \<open>tokens[0]\<close> is \<open>undefined\<close> and the loop stops.
\<close>

function stripOuter :: "jsstring list \<Rightarrow> jsstring list" where
  "stripOuter tokens =
     (if tokens \<noteq> [] \<and> hd tokens = LPAREN \<and> last tokens = RPAREN
         \<and> isBalanced (butlast (tl tokens))
      then stripOuter (butlast (tl tokens))
      else tokens)"
  by pat_completeness auto
termination
  by (relation "measure length") (auto simp: less_Suc_eq_le intro: le_less_trans)

declare stripOuter.simps [simp del]

lemma length_stripOuter: "length (stripOuter tokens) \<le> length tokens"
proof (induction tokens rule: stripOuter.induct)
  case (1 tokens)
  show ?case
  proof (cases "tokens \<noteq> [] \<and> hd tokens = LPAREN \<and> last tokens = RPAREN
         \<and> isBalanced (butlast (tl tokens))")
    case True
    then have "length (stripOuter (butlast (tl tokens))) \<le> length (butlast (tl tokens))"
      using "1.IH" by simp
    moreover have "stripOuter tokens = stripOuter (butlast (tl tokens))"
      using True by (subst stripOuter.simps) simp
    ultimately show ?thesis by simp
  next
    case False
    then show ?thesis by (subst stripOuter.simps) auto
  qed
qed

lemma findSplit_loop_range:
  "s = - 1 \<or> (0 \<le> s \<and> s < int (length toks)) \<Longrightarrow> n \<le> length toks \<Longrightarrow>
   findSplit_loop toks n b s m = - 1 \<or>
   (0 \<le> findSplit_loop toks n b s m \<and> findSplit_loop toks n b s m < int (length toks))"
proof (induction n arbitrary: b s m)
  case 0
  then show ?case by simp
next
  case (Suc n)
  have n: "n \<le> length toks" and nlt: "int n < int (length toks)" using Suc.prems by auto
  show ?case
    using Suc.IH [OF Suc.prems(1) n] Suc.IH [of "int n", OF _ n] nlt
    by (simp add: Let_def)
qed

lemma findSplit_range:
  "findSplit toks = - 1 \<or> (0 \<le> findSplit toks \<and> findSplit toks < int (length toks))"
  unfolding findSplit_def by (rule findSplit_loop_range) auto

text \<open>
  \<open>parseToAST\<close>. The slices are \<open>tokens.slice(1)\<close>, \<open>tokens.slice(0, split)\<close> and
  \<open>tokens.slice(split + 1)\<close>. The function recurses on strictly shorter token lists.
  This is the node that the call returns when the call stack has room for it.
\<close>

function parseToAST :: "jsstring list \<Rightarrow> ASTNode" where
  "parseToAST tokens0 =
     (let tokens = stripOuter tokens0 in
      if length tokens = 0 then ATOM ERR
      else if length tokens = 1 then ATOM (tokens ! 0)
      else if hd tokens = SYM_NOT \<and> findSplit tokens = - 1
        then NOT (parseToAST (drop 1 tokens))
      else
        (let split = findSplit tokens in
         if split \<noteq> - 1
         then BIN (tokens ! nat split)
                (parseToAST (take (nat split) tokens))
                (parseToAST (drop (nat split + 1) tokens))
         else if hd tokens = SYM_NOT then NOT (parseToAST (drop 1 tokens))
         else ATOM ERR))"
  by pat_completeness auto
termination
proof (relation "measure length", goal_cases)
  case 1
  then show ?case by simp
next
  case (2 tokens0 tokens)
  then show ?case using length_stripOuter [of tokens0] by (cases "stripOuter tokens0") auto
next
  case (3 tokens0 tokens split)
  then show ?case
    using length_stripOuter [of tokens0] findSplit_range [of "stripOuter tokens0"] by auto
next
  case (4 tokens0 tokens split)
  then show ?case using length_stripOuter [of tokens0] by (cases "stripOuter tokens0") auto
next
  case (5 tokens0 tokens split)
  then show ?case using length_stripOuter [of tokens0] by (cases "stripOuter tokens0") auto
qed

declare parseToAST.simps [simp del]

text \<open>
  The call stack. \<open>parseToAST\<close> calls itself once for each level of the tree it builds;
  the engine holds a bounded number of nested activations and throws \<open>RangeError\<close>
  (maximum call stack size exceeded) at the call that no longer fits. Nothing in
  \<open>parseToAST\<close> catches it, so it leaves the function; a thrown argument leaves the
  construction of the node undone. \<open>parseToAST_stack frames\<close> is \<open>parseToAST\<close> called
  where \<open>frames\<close> further activations fit; the loops \<open>findSplit\<close>, \<open>isBalanced\<close> and the
  slices do not nest and are counted with the activation that calls them.
\<close>

datatype exn = RangeError

fun parseToAST_stack :: "nat \<Rightarrow> jsstring list \<Rightarrow> exn + ASTNode" where
  "parseToAST_stack 0 tokens0 = Inl RangeError"
| "parseToAST_stack (Suc frames) tokens0 =
     (let tokens = stripOuter tokens0 in
      if length tokens = 0 then Inr (ATOM ERR)
      else if length tokens = 1 then Inr (ATOM (tokens ! 0))
      else if hd tokens = SYM_NOT \<and> findSplit tokens = - 1
        then (case parseToAST_stack frames (drop 1 tokens) of
                Inl e \<Rightarrow> Inl e
              | Inr l \<Rightarrow> Inr (NOT l))
      else
        (let split = findSplit tokens in
         if split \<noteq> - 1
         then (case parseToAST_stack frames (take (nat split) tokens) of
                 Inl e \<Rightarrow> Inl e
               | Inr l \<Rightarrow>
                   (case parseToAST_stack frames (drop (nat split + 1) tokens) of
                      Inl e \<Rightarrow> Inl e
                    | Inr r \<Rightarrow> Inr (BIN (tokens ! nat split) l r)))
         else if hd tokens = SYM_NOT
           then (case parseToAST_stack frames (drop 1 tokens) of
                   Inl e \<Rightarrow> Inl e
                 | Inr l \<Rightarrow> Inr (NOT l))
         else Inr (ATOM ERR)))"

section \<open>The tokenizer\<close>

text \<open>
  The white space of the regular expressions (\<open>\s\<close>) and of \<open>trim\<close>: TAB, LF, VT, FF, CR,
  SPACE, U+00A0, U+1680, U+2000 to U+200A, U+2028, U+2029, U+202F, U+205F, U+3000, U+FEFF.
\<close>

definition isSpace :: "jschar \<Rightarrow> bool" where
  "isSpace c = (c = 9 \<or> c = 10 \<or> c = 11 \<or> c = 12 \<or> c = 13 \<or> c = 32 \<or> c = 160 \<or> c = 5760
     \<or> (8192 \<le> c \<and> c \<le> 8202) \<or> c = 8232 \<or> c = 8233 \<or> c = 8239 \<or> c = 8287
     \<or> c = 12288 \<or> c = 65279)"

text \<open>The class of the connective glyphs and the two parentheses, on which \<open>split\<close> splits.\<close>

definition isDelimiter :: "jschar \<Rightarrow> bool" where
  "isDelimiter c = (c = 172 \<or> c = 8743 \<or> c = 8744 \<or> c = 8658 \<or> c = 8660 \<or> c = 40 \<or> c = 41)"

text \<open>
  \<open>split\<close> with a capture group keeps each delimiter as an element of its own, between the
  pieces of text around it; the pieces may be empty. The first argument is the piece read
  so far.
\<close>

fun splitDelimiters :: "jsstring \<Rightarrow> jsstring \<Rightarrow> jsstring list" where
  "splitDelimiters cur [] = [cur]"
| "splitDelimiters cur (c # cs) =
     (if isDelimiter c then cur # [c] # splitDelimiters [] cs
      else splitDelimiters (cur @ [c]) cs)"

text \<open>\<open>s.replace(/\s/g, '').split(/([...])/).filter(t => t)\<close>: the empty string is falsy.\<close>

definition tokenize :: "jsstring \<Rightarrow> jsstring list" where
  "tokenize formula =
     filter (\<lambda>t. t \<noteq> []) (splitDelimiters [] (filter (\<lambda>c. \<not> isSpace c) formula))"

section \<open>Sub-expressions\<close>

text \<open>
  The \<open>Set\<close> that \<open>getSubExpressions\<close> fills keeps its elements in insertion order and
  ignores the insertion of an element it already has: a list without duplicates.
\<close>

definition setAdd :: "'a \<Rightarrow> 'a list \<Rightarrow> 'a list" where
  "setAdd x xs = (if x \<in> set xs then xs else xs @ [x])"

fun getSubExpressions :: "ASTNode \<Rightarrow> jsstring list \<Rightarrow> jsstring list" where
  "getSubExpressions (ATOM v) list = list"
| "getSubExpressions (NOT l) list = getSubExpressions l (setAdd (toFullString (NOT l)) list)"
| "getSubExpressions (BIN v l r) list =
     getSubExpressions r (getSubExpressions l (setAdd (toFullString (BIN v l r)) list))"

section \<open>The evaluator\<close>

text \<open>
  \<open>evalAST\<close> inside \<open>solveProposition\<close>. The assignment \<open>values\<close> is an object; \<open>values k\<close>
  is \<open>None\<close> when the key is absent and otherwise the truthiness of the stored value, so
  \<open>!!values[key]\<close> is false for an absent key. The keys looked up are results of
  \<open>toUpperCase\<close>. \<open>toUpperCase\<close> is a built-in of the language and is a parameter here.
  This is the value that the evaluation returns when the call stack has room for it.
\<close>

fun evalAST :: "(jsstring \<Rightarrow> jsstring) \<Rightarrow> (jsstring \<rightharpoonup> bool) \<Rightarrow> ASTNode \<Rightarrow> bool" where
  "evalAST toUpperCase values (ATOM v) =
     (if v = LIT1 \<or> v = LITT then True
      else if v = LIT0 \<or> v = LITF then False
      else (case values (toUpperCase v) of Some b \<Rightarrow> b | None \<Rightarrow> False))"
| "evalAST toUpperCase values (NOT l) = (\<not> evalAST toUpperCase values l)"
| "evalAST toUpperCase values (BIN v l r) =
     (let lv = evalAST toUpperCase values l; rv = evalAST toUpperCase values r in
      if v = SYM_AND then lv \<and> rv
      else if v = SYM_OR then lv \<or> rv
      else if v = SYM_IMP then \<not> lv \<or> rv
      else if v = SYM_IFF then lv = rv
      else False)"

text \<open>
  \<open>evalAST\<close> where \<open>frames\<close> further activations fit: it calls itself once for each level
  of the tree, and a \<open>RangeError\<close> thrown by the evaluation of an operand leaves it.
\<close>

fun evalAST_stack ::
    "nat \<Rightarrow> (jsstring \<Rightarrow> jsstring) \<Rightarrow> (jsstring \<rightharpoonup> bool) \<Rightarrow> ASTNode \<Rightarrow> exn + bool" where
  "evalAST_stack 0 toUpperCase values node = Inl RangeError"
| "evalAST_stack (Suc frames) toUpperCase values (ATOM v) =
     Inr (if v = LIT1 \<or> v = LITT then True
          else if v = LIT0 \<or> v = LITF then False
          else (case values (toUpperCase v) of Some b \<Rightarrow> b | None \<Rightarrow> False))"
| "evalAST_stack (Suc frames) toUpperCase values (NOT l) =
     (case evalAST_stack frames toUpperCase values l of
        Inl e \<Rightarrow> Inl e
      | Inr lv \<Rightarrow> Inr (\<not> lv))"
| "evalAST_stack (Suc frames) toUpperCase values (BIN v l r) =
     (case evalAST_stack frames toUpperCase values l of
        Inl e \<Rightarrow> Inl e
      | Inr lv \<Rightarrow>
          (case evalAST_stack frames toUpperCase values r of
             Inl e \<Rightarrow> Inl e
           | Inr rv \<Rightarrow>
               Inr (if v = SYM_AND then lv \<and> rv
                    else if v = SYM_OR then lv \<or> rv
                    else if v = SYM_IMP then \<not> lv \<or> rv
                    else if v = SYM_IFF then lv = rv
                    else False)))"

text \<open>
  \<open>solveProposition\<close>. The body of its \<open>try\<close> block tokenizes the formula, parses the
  tokens and evaluates the tree; \<open>frames\<close> activations fit above the call. The handler
  \<open>catch (e) { return false; }\<close> turns every exception of the block into the result
  \<open>false\<close>. The result is \<open>Inr\<close> of the boolean returned; \<open>Inl\<close> would be an exception that
  leaves the function.
\<close>

definition solveProposition_try ::
    "nat \<Rightarrow> (jsstring \<Rightarrow> jsstring) \<Rightarrow> jsstring \<Rightarrow> (jsstring \<rightharpoonup> bool) \<Rightarrow> exn + bool" where
  "solveProposition_try frames toUpperCase formula values =
     (let tokens = tokenize formula in
      case parseToAST_stack frames tokens of
        Inl e \<Rightarrow> Inl e
      | Inr ast \<Rightarrow> evalAST_stack frames toUpperCase values ast)"

definition solveProposition ::
    "nat \<Rightarrow> (jsstring \<Rightarrow> jsstring) \<Rightarrow> jsstring \<Rightarrow> (jsstring \<rightharpoonup> bool) \<Rightarrow> exn + bool" where
  "solveProposition frames toUpperCase formula values =
     (case solveProposition_try frames toUpperCase formula values of
        Inl e \<Rightarrow> Inr False
      | Inr b \<Rightarrow> Inr b)"

text \<open>Upper-casing of ASCII letters, which is what \<open>toUpperCase\<close> does on an ASCII string.\<close>

definition asciiUpper :: "jsstring \<Rightarrow> jsstring" where
  "asciiUpper s = map (\<lambda>c. if 97 \<le> c \<and> c \<le> 122 then c - 32 else c) s"

section \<open>The reduction engine\<close>

text \<open>
  The state of the evaluation section that the reduction touches: the history, a list of
  entries \<open>{step, content, type}\<close>, and the message \<open>msg\<close>. The type of an entry is one of
  the strings \<open>'formula'\<close>, \<open>'substituted'\<close> and \<open>'reduction'\<close>.
\<close>

datatype entry_kind = Formula | Substituted | Reduction

record history_entry =
  step :: nat
  content :: jsstring
  kind :: entry_kind

record evaluation_state =
  history :: "history_entry list"
  msg :: jsstring

text \<open>
  Array access and \<open>slice\<close> as the language defines them: an index out of range reads
  \<open>undefined\<close> (\<open>None\<close>), and a negative bound of \<open>slice\<close> counts from the end.
\<close>

definition elemAt :: "'a list \<Rightarrow> int \<Rightarrow> 'a option" where
  "elemAt xs i = (if 0 \<le> i \<and> i < int (length xs) then Some (xs ! nat i) else None)"

definition slice :: "'a list \<Rightarrow> int \<Rightarrow> int \<Rightarrow> 'a list" where
  "slice xs start stop =
     (let len = int (length xs);
          k = (if start < 0 then max (len + start) 0 else min start len);
          final = (if stop < 0 then max (len + stop) 0 else min stop len)
      in take (nat (final - k)) (drop (nat k) xs))"

definition sliceFrom :: "'a list \<Rightarrow> int \<Rightarrow> 'a list" where
  "sliceFrom xs start = slice xs start (int (length xs))"

text \<open>\<open>join(' ')\<close> and \<open>trim\<close>.\<close>

fun join :: "jsstring list \<Rightarrow> jsstring" where
  "join [] = []"
| "join [t] = t"
| "join (t # ts) = t @ [32] @ join ts"

definition trim :: "jsstring \<Rightarrow> jsstring" where
  "trim s = rev (dropWhile isSpace (rev (dropWhile isSpace s)))"

text \<open>
  \<open>getTokens\<close>: each parenthesis is padded with spaces, the string is trimmed and split
  at the runs of white space. \<open>split(/\s+/)\<close> yields the pieces between the runs, an empty
  piece before a leading run and after a trailing run, and the one empty piece for the
  empty string.
\<close>

definition replaceChar :: "jschar \<Rightarrow> jsstring \<Rightarrow> jsstring \<Rightarrow> jsstring" where
  "replaceChar c rep s = concat (map (\<lambda>x. if x = c then rep else [x]) s)"

function splitSpaces :: "jsstring \<Rightarrow> jsstring \<Rightarrow> jsstring list" where
  "splitSpaces cur [] = [cur]"
| "splitSpaces cur (c # cs) =
     (if isSpace c then cur # splitSpaces [] (dropWhile isSpace cs)
      else splitSpaces (cur @ [c]) cs)"
  by pat_completeness auto
termination
  by (relation "measure (\<lambda>(cur, s). length s)")
     (auto simp: less_Suc_eq_le length_dropWhile_le)

definition getTokens :: "jsstring \<Rightarrow> jsstring list" where
  "getTokens str =
     (if str = [] then []
      else splitSpaces [] (trim (replaceChar 41 [32, 41, 32] (replaceChar 40 [32, 40, 32] str))))"

text \<open>\<open>evaluateOp\<close>, \<open>evaluateNot\<close> and \<open>isVal\<close>; an operand may be \<open>undefined\<close>.\<close>

definition evaluateOp :: "jsstring option \<Rightarrow> jsstring option \<Rightarrow> jsstring option \<Rightarrow> jsstring" where
  "evaluateOp left op right =
     (let l = (left = Some LIT1); r = (right = Some LIT1) in
      if op = Some SYM_AND then (if l \<and> r then LIT1 else LIT0)
      else if op = Some SYM_OR then (if l \<or> r then LIT1 else LIT0)
      else if op = Some SYM_IMP then (if \<not> l \<or> r then LIT1 else LIT0)
      else if op = Some SYM_IFF then (if l = r then LIT1 else LIT0)
      else LIT0)"

definition evaluateNot :: "jsstring option \<Rightarrow> jsstring" where
  "evaluateNot val = (if val = Some LIT1 then LIT0 else LIT1)"

definition isVal :: "jsstring option \<Rightarrow> bool" where
  "isVal v = (v = Some LIT1 \<or> v = Some LIT0)"

text \<open>
  The replacement \<open>clean.replace(/\(\s*([01])\s*\)/g, '$1')\<close>. \<open>matchParenLit s\<close> matches
  the expression at the start of \<open>s\<close> and returns the digit and the text after the match.
  The global replacement goes through the string from the left, replaces a match by its
  digit and goes on after the match.
\<close>

definition matchParenLit :: "jsstring \<Rightarrow> (jschar \<times> jsstring) option" where
  "matchParenLit s =
     (case s of
        [] \<Rightarrow> None
      | c # r \<Rightarrow>
          if c \<noteq> 40 then None
          else (case dropWhile isSpace r of
                  [] \<Rightarrow> None
                | d # r2 \<Rightarrow>
                    if d \<noteq> 48 \<and> d \<noteq> 49 then None
                    else (case dropWhile isSpace r2 of
                            [] \<Rightarrow> None
                          | e # r3 \<Rightarrow> if e = 41 then Some (d, r3) else None)))"

lemma matchParenLit_Some:
  "matchParenLit s = Some (d, rest) \<longleftrightarrow>
     (\<exists>r r2. s = 40 # r \<and> dropWhile isSpace r = d # r2 \<and> (d = 48 \<or> d = 49)
        \<and> dropWhile isSpace r2 = 41 # rest)"
  unfolding matchParenLit_def
  by (auto split: list.splits if_splits simp del: dropWhile_eq_Nil_conv)

lemma matchParenLit_length:
  assumes "matchParenLit s = Some (d, rest)"
  shows "length rest + 3 \<le> length s"
proof -
  from assms obtain r r2 where s: "s = 40 # r" and r: "dropWhile isSpace r = d # r2"
    and r2: "dropWhile isSpace r2 = 41 # rest"
    unfolding matchParenLit_Some by blast
  have "length (dropWhile isSpace r) \<le> length r" by (rule length_dropWhile_le)
  moreover have "length (dropWhile isSpace r2) \<le> length r2" by (rule length_dropWhile_le)
  ultimately show ?thesis unfolding s r r2 by simp
qed

function replaceParenLit :: "jsstring \<Rightarrow> jsstring" where
  "replaceParenLit [] = []"
| "replaceParenLit (c # cs) =
     (case matchParenLit (c # cs) of
        Some (d, rest) \<Rightarrow> d # replaceParenLit rest
      | None \<Rightarrow> c # replaceParenLit cs)"
  by pat_completeness auto
termination
  by (relation "measure length") (auto dest: matchParenLit_length)

lemma length_replaceParenLit: "length (replaceParenLit s) \<le> length s"
proof (induction s rule: replaceParenLit.induct)
  case 1
  then show ?case by simp
next
  case (2 c cs)
  show ?case
  proof (cases "matchParenLit (c # cs)")
    case None
    then show ?thesis using 2 by simp
  next
    case (Some p)
    obtain d rest where p: "p = (d, rest)" by (cases p)
    have "length (replaceParenLit rest) \<le> length rest"
      by (rule 2(2) [OF Some p [symmetric]])
    then show ?thesis using Some p matchParenLit_length [of "c # cs" d rest] by simp
  qed
qed

lemma replaceParenLit_changed:
  "replaceParenLit s \<noteq> s \<Longrightarrow> length (replaceParenLit s) < length s"
proof (induction s rule: replaceParenLit.induct)
  case 1
  then show ?case by simp
next
  case (2 c cs)
  show ?case
  proof (cases "matchParenLit (c # cs)")
    case None
    then show ?thesis using 2 by simp
  next
    case (Some p)
    obtain d rest where p: "p = (d, rest)" by (cases p)
    have "length (replaceParenLit rest) \<le> length rest" by (rule length_replaceParenLit)
    then show ?thesis using Some p matchParenLit_length [of "c # cs" d rest] by simp
  qed
qed

text \<open>
  The loop of \<open>addToHistory\<close>: the replacement is applied until it changes nothing. Each
  round that changes the string shortens it.
\<close>

function normalizeParens :: "jsstring \<Rightarrow> jsstring" where
  "normalizeParens clean =
     (let temp = replaceParenLit clean in
      if temp = clean then clean else normalizeParens temp)"
  by pat_completeness auto
termination
  by (relation "measure length") (auto simp: replaceParenLit_changed)

declare normalizeParens.simps [simp del]

definition addToHistory :: "jsstring \<Rightarrow> evaluation_state \<Rightarrow> evaluation_state" where
  "addToHistory newStr st =
     st\<lparr>history := history st @
          [\<lparr>step = length (history st), content = normalizeParens newStr, kind = Reduction\<rparr>]\<rparr>"

text \<open>The advisory message of a rejected move, as code units.\<close>

definition ORDER_MSG :: jsstring where
  "ORDER_MSG = [9888, 65039, 32, 161, 79, 114, 100, 101, 110, 32, 105, 110, 99, 111, 114, 114,
     101, 99, 116, 111, 33, 32, 82, 101, 115, 117, 101, 108, 118, 101, 32, 112, 114, 105, 109,
     101, 114, 111, 32, 108, 111, 115, 32, 111, 112, 101, 114, 97, 100, 111, 114, 101, 115, 32,
     100, 101, 32, 109, 97, 121, 111, 114, 32, 106, 101, 114, 97, 114, 113, 117, 237, 97, 46]"

text \<open>
  The candidates of \<open>handleInteraction\<close>: for each index, a NOT followed by a value, and a
  binary connective between two values. The precedence of a candidate is
  \<open>PRECEDENCE[t]\<close>, which is defined for the five connectives, the only tokens pushed.
\<close>

record candidate =
  cand_idx :: nat
  cand_op :: jsstring
  cand_prec :: nat

definition candidatesAt :: "jsstring list \<Rightarrow> nat \<Rightarrow> candidate list" where
  "candidatesAt tokens i =
     (let t = tokens ! i;
          p = (case PRECEDENCE t of Some p \<Rightarrow> p | None \<Rightarrow> 0) in
      (if t = SYM_NOT \<and> isVal (elemAt tokens (int i + 1))
       then [\<lparr>cand_idx = i, cand_op = t, cand_prec = p\<rparr>] else []) @
      (if (t = SYM_AND \<or> t = SYM_OR \<or> t = SYM_IMP \<or> t = SYM_IFF)
          \<and> isVal (elemAt tokens (int i - 1)) \<and> isVal (elemAt tokens (int i + 1))
       then [\<lparr>cand_idx = i, cand_op = t, cand_prec = p\<rparr>] else []))"

definition candidatesOf :: "jsstring list \<Rightarrow> candidate list" where
  "candidatesOf tokens = concat (map (candidatesAt tokens) [0..<length tokens])"

text \<open>
  \<open>handleInteraction\<close>. A comparison \<open>clickedPrec < maxPrec\<close> with an undefined
  \<open>clickedPrec\<close> is false.
\<close>

definition handleInteraction :: "nat \<Rightarrow> jsstring list \<Rightarrow> evaluation_state \<Rightarrow> evaluation_state" where
  "handleInteraction idx tokens st0 =
     (let st = st0\<lparr>msg := []\<rparr>;
          token = elemAt tokens (int idx);
          prev = elemAt tokens (int idx - 1);
          next = elemAt tokens (int idx + 1);
          candidates = candidatesOf tokens
      in if candidates = [] then st
         else
           (let maxPrec = Max (set (map cand_prec candidates));
                clickedPrec = (case token of Some t \<Rightarrow> PRECEDENCE t | None \<Rightarrow> None)
            in if (case clickedPrec of Some p \<Rightarrow> p < maxPrec | None \<Rightarrow> False)
               then st\<lparr>msg := ORDER_MSG\<rparr>
               else if token = Some SYM_NOT then
                 (let res = evaluateNot next;
                      prePart = join (slice tokens 0 (int idx));
                      postPart = join (sliceFrom tokens (int idx + 2))
                  in addToHistory (trim (prePart @ [32] @ res @ [32] @ postPart)) st)
               else
                 (let res = evaluateOp prev token next;
                      prePart = join (slice tokens 0 (int idx - 1));
                      postPart = join (sliceFrom tokens (int idx + 2))
                  in addToHistory (trim (prePart @ [32] @ res @ [32] @ postPart)) st)))"

text \<open>
  The rendering of the current step. The tokens are those of the last entry of the
  history; they are shown for clicking when the step is not solved and the history has
  more than one entry, and a click on the token at \<open>idx\<close> calls \<open>handleInteraction\<close> only
  when that token is interactable. With an empty history nothing is shown.
\<close>

definition interactable :: "jsstring list \<Rightarrow> nat \<Rightarrow> bool" where
  "interactable tokens idx =
     (case elemAt tokens (int idx) of
        None \<Rightarrow> False
      | Some token \<Rightarrow>
          (let isUnary = (token = SYM_NOT \<and> isVal (elemAt tokens (int idx + 1)));
               isBinary = ((token = SYM_AND \<or> token = SYM_OR \<or> token = SYM_IMP \<or> token = SYM_IFF)
                  \<and> isVal (elemAt tokens (int idx - 1)) \<and> isVal (elemAt tokens (int idx + 1)))
           in isUnary \<or> isBinary))"

definition isSolved :: "jsstring list \<Rightarrow> bool" where
  "isSolved tokens = (length tokens = 1 \<and> (tokens ! 0 = LIT1 \<or> tokens ! 0 = LIT0))"

definition clickToken :: "nat \<Rightarrow> evaluation_state \<Rightarrow> evaluation_state" where
  "clickToken idx st =
     (if history st = [] then st
      else
        (let tokens = getTokens (content (last (history st))) in
         if \<not> isSolved tokens \<and> 1 < length (history st) \<and> interactable tokens idx
         then handleInteraction idx tokens st
         else st))"

fun clickTokens :: "nat list \<Rightarrow> evaluation_state \<Rightarrow> evaluation_state" where
  "clickTokens [] st = st"
| "clickTokens (idx # idxs) st = clickTokens idxs (clickToken idx st)"

section \<open>The truth-table generator\<close>

text \<open>
  \<open>parseVars\<close>: \<open>str.match(/[a-z]+/gi)\<close> yields the maximal runs of ASCII letters (the
  flag \<open>i\<close> without the flag \<open>u\<close> adds the upper-case ASCII letters and nothing else);
  each run is upper-cased and added to a \<open>Set\<close> unless it is \<open>T\<close> or \<open>F\<close>; the elements are
  sorted with the default order of \<open>sort\<close>, the order of the strings by code units.
\<close>

definition isAsciiLetter :: "jschar \<Rightarrow> bool" where
  "isAsciiLetter c = ((65 \<le> c \<and> c \<le> 90) \<or> (97 \<le> c \<and> c \<le> 122))"

fun letterRuns :: "jsstring \<Rightarrow> jsstring \<Rightarrow> jsstring list" where
  "letterRuns cur [] = (if cur = [] then [] else [cur])"
| "letterRuns cur (c # cs) =
     (if isAsciiLetter c then letterRuns (cur @ [c]) cs
      else (if cur = [] then [] else [cur]) @ letterRuns [] cs)"

fun strLess :: "jsstring \<Rightarrow> jsstring \<Rightarrow> bool" where
  "strLess [] [] = False"
| "strLess [] (y # ys) = True"
| "strLess (x # xs) [] = False"
| "strLess (x # xs) (y # ys) = (x < y \<or> (x = y \<and> strLess xs ys))"

fun insertSorted :: "jsstring \<Rightarrow> jsstring list \<Rightarrow> jsstring list" where
  "insertSorted x [] = [x]"
| "insertSorted x (y # ys) = (if strLess x y then x # y # ys else y # insertSorted x ys)"

definition sortStrings :: "jsstring list \<Rightarrow> jsstring list" where
  "sortStrings xs = foldl (\<lambda>sorted x. insertSorted x sorted) [] xs"

definition parseVars :: "jsstring \<Rightarrow> jsstring list" where
  "parseVars str =
     sortStrings
       (foldl (\<lambda>found v. let upper = asciiUpper v in
                 if upper \<noteq> LITT \<and> upper \<noteq> LITF then setAdd upper found else found)
          [] (letterRuns [] str))"

text \<open>
  The 32-bit integer operations of the generator, on \<open>int\<close> with the wrap-around written
  out: \<open>ToInt32\<close>, \<open>a << n\<close> and \<open>a >> n\<close> (the shift count is taken modulo 32, the right shift
  is arithmetic) and \<open>a & 1\<close>.
\<close>

definition toInt32 :: "int \<Rightarrow> int" where
  "toInt32 x = (x + 2 ^ 31) mod 2 ^ 32 - 2 ^ 31"

definition shiftLeft32 :: "int \<Rightarrow> nat \<Rightarrow> int" where
  "shiftLeft32 a n = toInt32 (toInt32 a * 2 ^ (n mod 32))"

definition shiftRight32 :: "int \<Rightarrow> nat \<Rightarrow> int" where
  "shiftRight32 a n = toInt32 a div 2 ^ (n mod 32)"

definition andOne32 :: "int \<Rightarrow> int" where
  "andOne32 a = toInt32 a mod 2"

text \<open>
  A row of the table and the state of the section. The inputs map each variable to the
  number 1 or 0; the other fields start empty, with the status \<open>'idle'\<close>.
\<close>

record table_row =
  inputs :: "jsstring \<rightharpoonup> nat"
  subVals :: "jsstring \<rightharpoonup> jsstring"
  finalVal :: jsstring
  statusSub :: "jsstring \<rightharpoonup> jsstring"
  statusFinal :: jsstring

record satisfaction_state =
  formula :: jsstring
  variables :: "jsstring list"
  subExprs :: "jsstring list"
  rows :: "table_row list"

definition rowInputs :: "jsstring list \<Rightarrow> int \<Rightarrow> (jsstring \<rightharpoonup> nat)" where
  "rowInputs vars i =
     foldl (\<lambda>inputs idx.
              (let shift = length vars - 1 - idx in
               inputs(vars ! idx \<mapsto> (if andOne32 (shiftRight32 i shift) \<noteq> 0 then 1 else 0))))
       Map.empty [0..<length vars]"

definition makeRow :: "jsstring list \<Rightarrow> jsstring list \<Rightarrow> int \<Rightarrow> table_row" where
  "makeRow vars subs i =
     \<lparr>inputs = rowInputs vars i,
      subVals = foldl (\<lambda>subVals s. subVals(s \<mapsto> [])) Map.empty subs,
      finalVal = [],
      statusSub = Map.empty,
      statusFinal = [105, 100, 108, 101]\<rparr>"

text \<open>The loop \<open>for (let i = count - 1; i >= 0; i--)\<close>, which appends one row for each \<open>i\<close>.\<close>

function rowsLoop :: "jsstring list \<Rightarrow> jsstring list \<Rightarrow> int \<Rightarrow> table_row list \<Rightarrow> table_row list" where
  "rowsLoop vars subs i newRows =
     (if i \<ge> 0 then rowsLoop vars subs (i - 1) (newRows @ [makeRow vars subs i]) else newRows)"
  by pat_completeness auto
termination
  by (relation "measure (\<lambda>(vars, subs, i, newRows). nat (i + 1))") auto

declare rowsLoop.simps [simp del]

text \<open>
  The sub-expression columns: the set of \<open>getSubExpressions\<close> in insertion order, without
  the strings that are atoms and without the full formula, sorted by length (the sort is
  stable). The \<open>try\<close> block around the parse leaves the columns empty when the parse
  exhausts the call stack; the definition follows the parse that returns, and neither the
  variables nor the rows depend on the columns found.
\<close>

definition isAtomString :: "jsstring \<Rightarrow> bool" where
  "isAtomString s = ((s \<noteq> [] \<and> list_all isAsciiLetter s) \<or> s = LIT1 \<or> s = LIT0)"

definition generateTable :: "jsstring \<Rightarrow> satisfaction_state \<Rightarrow> satisfaction_state" where
  "generateTable expr st =
     (let vars = parseVars expr in
      if length vars = 0 then st\<lparr>variables := [], rows := [], subExprs := []\<rparr>
      else
        (let tokens = tokenize expr;
             ast = parseToAST tokens;
             allSubs = getSubExpressions ast [];
             fullStr = toFullString ast;
             subs = sort_key length (filter (\<lambda>s. \<not> isAtomString s \<and> s \<noteq> fullStr) allSubs);
             count = shiftLeft32 1 (length vars)
         in st\<lparr>variables := vars, subExprs := subs,
               rows := rowsLoop vars subs (count - 1) []\<rparr>))"

section \<open>Notions used to state the properties\<close>

text \<open>
  A binary connective; the rank of a token as the scan of \<open>findSplit\<close> computes it
  (\<open>PRECEDENCE[t] || 100\<close>); the number of closing minus the number of opening parentheses
  among the tokens from index \<open>i\<close> on, so that the balance counter of the scan has the
  value \<open>balanceAt toks (Suc i)\<close> when the scan examines the token at index \<open>i\<close>; and a
  split candidate: a binary connective at balance zero.
\<close>

definition isBinaryOp :: "jsstring \<Rightarrow> bool" where
  "isBinaryOp t = (t = SYM_AND \<or> t = SYM_OR \<or> t = SYM_IMP \<or> t = SYM_IFF)"

definition rank :: "jsstring \<Rightarrow> nat" where
  "rank t = (case PRECEDENCE t of Some p \<Rightarrow> p | None \<Rightarrow> 100)"

definition balanceAt :: "jsstring list \<Rightarrow> nat \<Rightarrow> int" where
  "balanceAt toks i =
     int (count_list (drop i toks) RPAREN) - int (count_list (drop i toks) LPAREN)"

definition splitCandidate :: "jsstring list \<Rightarrow> nat \<Rightarrow> bool" where
  "splitCandidate toks i =
     (i < length toks \<and> isBinaryOp (toks ! i) \<and> balanceAt toks (Suc i) = 0)"

text \<open>
  The invariant of the scan: \<open>s\<close> and \<open>m\<close> are the split index and the minimal rank found
  among the candidates at the indices from \<open>n\<close> on.
\<close>

definition bestFrom :: "jsstring list \<Rightarrow> nat \<Rightarrow> int \<Rightarrow> nat \<Rightarrow> bool" where
  "bestFrom toks n s m =
     ((s = - 1 \<and> m = 100 \<and> (\<forall>j. n \<le> j \<longrightarrow> \<not> splitCandidate toks j)) \<or>
      (\<exists>k. s = int k \<and> n \<le> k \<and> splitCandidate toks k \<and> rank (toks ! k) = m \<and>
           (\<forall>j. n \<le> j \<longrightarrow> splitCandidate toks j \<longrightarrow>
                m < rank (toks ! j) \<or> (m = rank (toks ! j) \<and> j \<le> k))))"

text \<open>The nodes of a tree, and the test that a node is an atom.\<close>

fun subtrees :: "ASTNode \<Rightarrow> ASTNode set" where
  "subtrees (ATOM v) = {ATOM v}"
| "subtrees (NOT l) = insert (NOT l) (subtrees l)"
| "subtrees (BIN v l r) = insert (BIN v l r) (subtrees l \<union> subtrees r)"

fun isAtomNode :: "ASTNode \<Rightarrow> bool" where
  "isAtomNode (ATOM v) = True"
| "isAtomNode _ = False"

text \<open>
  The precedence ranks of the reducible tokens of a token sequence: the tokens that the
  rendering makes interactable.
\<close>

definition reducibleRanks :: "jsstring list \<Rightarrow> nat set" where
  "reducibleRanks tokens =
     {p. \<exists>i t. interactable tokens i \<and> elemAt tokens (int i) = Some t \<and> PRECEDENCE t = Some p}"

text \<open>
  Two sessions used as examples: the substituted formula \<open>1 \<and> 0 \<or> 1\<close>, and the substituted
  formula \<open>(\<not> 1)\<close>.
\<close>

definition exampleState :: evaluation_state where
  "exampleState =
     \<lparr>history =
        [\<lparr>step = 0, content = [80, 32, 8743, 32, 81, 32, 8744, 32, 80], kind = Formula\<rparr>,
         \<lparr>step = 1, content = [49, 32, 8743, 32, 48, 32, 8744, 32, 49], kind = Substituted\<rparr>],
      msg = []\<rparr>"

definition negState :: evaluation_state where
  "negState =
     \<lparr>history =
        [\<lparr>step = 0, content = [40, 172, 32, 80, 41], kind = Formula\<rparr>,
         \<lparr>step = 1, content = [40, 172, 32, 49, 41], kind = Substituted\<rparr>],
      msg = []\<rparr>"

text \<open>
  An initial state of the truth-table section, and a formula that names 31 distinct
  variables: the 24 letters other than \<open>T\<close> and \<open>F\<close>, and \<open>AA\<close>, \<open>AB\<close>, \<open>AC\<close>, \<open>AD\<close>, \<open>AE\<close>,
  \<open>AG\<close>, \<open>AH\<close>, separated by spaces.
\<close>

definition emptyTable :: satisfaction_state where
  "emptyTable = \<lparr>formula = [], variables = [], subExprs = [], rows = []\<rparr>"

definition manyVariables :: jsstring where
  "manyVariables =
     [65, 32, 66, 32, 67, 32, 68, 32, 69, 32, 71, 32, 72, 32, 73, 32, 74, 32, 75, 32, 76,
      32, 77, 32, 78, 32, 79, 32, 80, 32, 81, 32, 82, 32, 83, 32, 85, 32, 86, 32, 87, 32,
      88, 32, 89, 32, 90, 32, 65, 65, 32, 65, 66, 32, 65, 67, 32, 65, 68, 32, 65, 69, 32,
      65, 71, 32, 65, 72]"

text \<open>
  The lexical tokens of a string, read directly: a parenthesis is a token of its own, and
  the other tokens are the maximal runs of characters that are neither white space nor
  parentheses. The first argument is the run read so far. \<open>wordsOf\<close> splits at white
  space only. \<open>tokenCount\<close> is the number of tokens of the current step.
\<close>

definition flushTok :: "jsstring \<Rightarrow> jsstring list" where
  "flushTok cur = (if cur = [] then [] else [cur])"

fun lexer :: "jsstring \<Rightarrow> jsstring \<Rightarrow> jsstring list" where
  "lexer cur [] = flushTok cur"
| "lexer cur (c # cs) =
     (if isSpace c then flushTok cur @ lexer [] cs
      else if c = 40 \<or> c = 41 then flushTok cur @ [c] # lexer [] cs
      else lexer (cur @ [c]) cs)"

fun wordsOf :: "jsstring \<Rightarrow> jsstring \<Rightarrow> jsstring list" where
  "wordsOf cur [] = flushTok cur"
| "wordsOf cur (c # cs) =
     (if isSpace c then flushTok cur @ wordsOf [] cs else wordsOf (cur @ [c]) cs)"

definition padChar :: "jschar \<Rightarrow> jsstring" where
  "padChar c = (if c = 40 then [32, 40, 32] else if c = 41 then [32, 41, 32] else [c])"

definition plainText :: "jsstring \<Rightarrow> bool" where
  "plainText t = list_all (\<lambda>c. \<not> isSpace c \<and> c \<noteq> 40 \<and> c \<noteq> 41) t"

definition tokenShape :: "jsstring \<Rightarrow> bool" where
  "tokenShape t = (t \<noteq> [] \<and> (t = [40] \<or> t = [41] \<or> plainText t))"

definition tokenCount :: "evaluation_state \<Rightarrow> nat" where
  "tokenCount st =
     (if history st = [] then 0 else length (getTokens (content (last (history st)))))"

text \<open>
  Well-formed token sequences: the token sequences of the formulas, built from atoms,
  negation, the four binary connectives and parentheses. An atom token is a non-empty
  string without white space, connective glyphs and parentheses, as the tokenizer yields
  them.
\<close>

definition cleanAtom :: "jsstring \<Rightarrow> bool" where
  "cleanAtom v = (v \<noteq> [] \<and> list_all (\<lambda>c. \<not> isSpace c \<and> \<not> isDelimiter c) v)"

inductive wellFormed :: "jsstring list \<Rightarrow> bool" where
  wf_atom: "cleanAtom a \<Longrightarrow> wellFormed [a]"
| wf_not: "wellFormed ts \<Longrightarrow> wellFormed (SYM_NOT # ts)"
| wf_bin: "wellFormed l \<Longrightarrow> wellFormed r \<Longrightarrow> isBinaryOp op \<Longrightarrow> wellFormed (l @ [op] @ r)"
| wf_paren: "wellFormed ts \<Longrightarrow> wellFormed (LPAREN # ts @ [RPAREN])"

text \<open>
  The trees whose atoms are atom tokens and whose binary nodes carry a binary connective;
  the tokens of the rendering of a tree; the rendering without its spaces; the number of
  opening minus the number of closing parentheses of a token list; and the tokenizer as a
  direct scan.
\<close>

fun cleanTree :: "ASTNode \<Rightarrow> bool" where
  "cleanTree (ATOM v) = cleanAtom v"
| "cleanTree (NOT l) = cleanTree l"
| "cleanTree (BIN v l r) = (isBinaryOp v \<and> cleanTree l \<and> cleanTree r)"

fun treeTokens :: "ASTNode \<Rightarrow> jsstring list" where
  "treeTokens (ATOM v) = [v]"
| "treeTokens (NOT l) = [LPAREN, SYM_NOT] @ treeTokens l @ [RPAREN]"
| "treeTokens (BIN v l r) = [LPAREN] @ treeTokens l @ [v] @ treeTokens r @ [RPAREN]"

fun compact :: "ASTNode \<Rightarrow> jsstring" where
  "compact (ATOM v) = v"
| "compact (NOT l) = [40] @ SYM_NOT @ compact l @ [41]"
| "compact (BIN v l r) = [40] @ compact l @ v @ compact r @ [41]"

definition parenSum :: "jsstring list \<Rightarrow> int" where
  "parenSum ts = int (count_list ts LPAREN) - int (count_list ts RPAREN)"

definition balancedToks :: "jsstring list \<Rightarrow> bool" where
  "balancedToks ts = (parenSum ts = 0 \<and> (\<forall>n. 0 \<le> parenSum (take n ts)))"

fun scanDelimiters :: "jsstring \<Rightarrow> jsstring \<Rightarrow> jsstring list" where
  "scanDelimiters cur [] = flushTok cur"
| "scanDelimiters cur (c # cs) =
     (if isDelimiter c then flushTok cur @ [c] # scanDelimiters [] cs
      else scanDelimiters (cur @ [c]) cs)"

text \<open>
  The normalization read on tokens: one pass replaces each group \<open>( v )\<close> of three tokens,
  \<open>v\<close> a literal, by the token \<open>v\<close>, from the left; the passes are repeated until nothing
  changes. Only parenthesis tokens are removed.
\<close>

fun unwrapOnce :: "jsstring list \<Rightarrow> jsstring list" where
  "unwrapOnce (a # b # c # rest) =
     (if a = LPAREN \<and> (b = LIT0 \<or> b = LIT1) \<and> c = RPAREN then b # unwrapOnce rest
      else a # unwrapOnce (b # c # rest))"
| "unwrapOnce ts = ts"

lemma length_unwrapOnce: "length (unwrapOnce ts) \<le> length ts"
  by (induction ts rule: unwrapOnce.induct) auto

lemma unwrapOnce_changed: "unwrapOnce ts \<noteq> ts \<Longrightarrow> length (unwrapOnce ts) < length ts"
proof (induction ts rule: unwrapOnce.induct)
  case (1 a b c rest)
  show ?case
  proof (cases "a = LPAREN \<and> (b = LIT0 \<or> b = LIT1) \<and> c = RPAREN")
    case True
    then show ?thesis using length_unwrapOnce [of rest] by simp
  next
    case False
    then show ?thesis using 1 by auto
  qed
qed simp_all

function unwrapAll :: "jsstring list \<Rightarrow> jsstring list" where
  "unwrapAll ts = (let t = unwrapOnce ts in if t = ts then ts else unwrapAll t)"
  by pat_completeness auto
termination
  by (relation "measure length") (auto simp: unwrapOnce_changed)

declare unwrapAll.simps [simp del]

text \<open>
  The height of a tree: the number of nested activations that building it, and that
  evaluating it, takes.
\<close>

fun treeHeight :: "ASTNode \<Rightarrow> nat" where
  "treeHeight (ATOM v) = 1"
| "treeHeight (NOT l) = Suc (treeHeight l)"
| "treeHeight (BIN v l r) = Suc (max (treeHeight l) (treeHeight r))"

text \<open>
  The token sequence that a reduction at \<open>idx\<close> splices together: \<open>\<not> v\<close> is replaced by its
  value, or \<open>l op r\<close> by its value. A group is a parenthesized single literal, three tokens
  \<open>( v )\<close>; \<open>unwrapAt\<close> rewrites the group at one position to \<open>v\<close>, and \<open>unwrapAts\<close> does so at
  a sequence of positions, each taken in the list that the previous rewriting left.
\<close>

definition reduceAt :: "jsstring list \<Rightarrow> nat \<Rightarrow> jsstring list" where
  "reduceAt tokens idx =
     (if tokens ! idx = SYM_NOT
      then take idx tokens @ [evaluateNot (elemAt tokens (int idx + 1))] @ drop (idx + 2) tokens
      else take (idx - 1) tokens
           @ [evaluateOp (elemAt tokens (int idx - 1)) (Some (tokens ! idx))
                (elemAt tokens (int idx + 1))]
           @ drop (idx + 2) tokens)"

definition groupAt :: "jsstring list \<Rightarrow> nat \<Rightarrow> bool" where
  "groupAt ts i =
     (i + 2 < length ts \<and> ts ! i = LPAREN \<and> (ts ! (i + 1) = LIT0 \<or> ts ! (i + 1) = LIT1)
      \<and> ts ! (i + 2) = RPAREN)"

definition unwrapAt :: "nat \<Rightarrow> jsstring list \<Rightarrow> jsstring list option" where
  "unwrapAt i ts =
     (if groupAt ts i then Some (take i ts @ ts ! (i + 1) # drop (i + 3) ts) else None)"

fun unwrapAts :: "nat list \<Rightarrow> jsstring list \<Rightarrow> jsstring list option" where
  "unwrapAts [] ts = Some ts"
| "unwrapAts (i # ps) ts =
     (case unwrapAt i ts of None \<Rightarrow> None | Some ts' \<Rightarrow> unwrapAts ps ts')"

definition parenState :: evaluation_state where
  "parenState =
     \<lparr>history =
        [\<lparr>step = 0, content = [40, 40, 80, 41, 41, 32, 8743, 32, 172, 32, 81], kind = Formula\<rparr>,
         \<lparr>step = 1, content = [40, 40, 49, 41, 41, 32, 8743, 32, 172, 32, 48], kind = Substituted\<rparr>],
      msg = []\<rparr>"

section \<open>Properties of the parser\<close>

lemma balanceAt_step:
  "n < length toks \<Longrightarrow>
   balanceAt toks n = balanceAt toks (Suc n)
      + (if toks ! n = RPAREN then 1 else if toks ! n = LPAREN then - 1 else 0)"
  unfolding balanceAt_def
  by (subst (1 2) Cons_nth_drop_Suc [symmetric]) (auto simp: sym_defs)

lemma rank_lt_100_iff: "t \<noteq> SYM_NOT \<Longrightarrow> rank t < 100 \<longleftrightarrow> isBinaryOp t"
  by (auto simp: rank_def PRECEDENCE_def isBinaryOp_def)

lemma isBinaryOp_not_special:
  "isBinaryOp t \<Longrightarrow> t \<noteq> SYM_NOT \<and> t \<noteq> LPAREN \<and> t \<noteq> RPAREN"
  by (auto simp: isBinaryOp_def sym_defs)

lemma bestFrom_skip:
  assumes "bestFrom toks (Suc n) s m" "\<not> splitCandidate toks n"
  shows "bestFrom toks n s m"
proof -
  have *: "\<And>j. n \<le> j \<Longrightarrow> splitCandidate toks j \<Longrightarrow> Suc n \<le> j"
    using assms(2) by (metis Suc_leI le_neq_implies_less)
  show ?thesis
    using assms(1) unfolding bestFrom_def
    by (elim disjE exE conjE) (use * in \<open>auto simp: Suc_le_eq dest: Suc_leD\<close>)
qed

lemma bestFrom_take:
  assumes "bestFrom toks (Suc n) s m" "splitCandidate toks n" "rank (toks ! n) < m"
  shows "bestFrom toks n (int n) (rank (toks ! n))"
proof -
  have "m < rank (toks ! j) \<or> (m = rank (toks ! j) \<and> True)"
    if "Suc n \<le> j" "splitCandidate toks j" for j
    using assms(1) that unfolding bestFrom_def by auto
  then have "rank (toks ! n) < rank (toks ! j)" if "Suc n \<le> j" "splitCandidate toks j" for j
    using that assms(3) by fastforce
  moreover have "j = n \<or> Suc n \<le> j" if "n \<le> j" for j using that by auto
  ultimately show ?thesis
    unfolding bestFrom_def using assms(2) by (intro disjI2 exI [of _ n]) auto
qed

lemma bestFrom_keep:
  assumes "bestFrom toks (Suc n) s m" "splitCandidate toks n" "m \<le> rank (toks ! n)"
    "rank (toks ! n) < 100"
  shows "bestFrom toks n s m"
proof -
  from assms obtain k where k: "s = int k" "Suc n \<le> k" "splitCandidate toks k"
    "rank (toks ! k) = m"
    "\<And>j. Suc n \<le> j \<Longrightarrow> splitCandidate toks j \<Longrightarrow>
        m < rank (toks ! j) \<or> (m = rank (toks ! j) \<and> j \<le> k)"
    unfolding bestFrom_def by auto
  have "m < rank (toks ! j) \<or> (m = rank (toks ! j) \<and> j \<le> k)"
    if "n \<le> j" "splitCandidate toks j" for j
  proof (cases "j = n")
    case True
    then show ?thesis using assms(3) k(2) by auto
  next
    case False
    then show ?thesis using that k(5) [of j] by auto
  qed
  then show ?thesis unfolding bestFrom_def using k by (intro disjI2 exI [of _ k]) auto
qed

lemma findSplit_loop_best:
  "n \<le> length toks \<Longrightarrow> b = balanceAt toks n \<Longrightarrow> bestFrom toks n s m \<Longrightarrow>
   \<exists>m'. bestFrom toks 0 (findSplit_loop toks n b s m) m'"
proof (induction n arbitrary: b s m)
  case 0
  then show ?case by auto
next
  case (Suc n)
  let ?t = "toks ! n"
  have n: "n < length toks" "n \<le> length toks" using Suc.prems(1) by auto
  have bal: "balanceAt toks n = b
      + (if ?t = RPAREN then 1 else if ?t = LPAREN then - 1 else 0)"
    using balanceAt_step [OF n(1)] Suc.prems(2) by simp
  have cand: "splitCandidate toks n \<longleftrightarrow> isBinaryOp ?t \<and> b = 0"
    using n Suc.prems(2) by (simp add: splitCandidate_def)
  have skip: "bestFrom toks n s m" if "\<not> splitCandidate toks n"
    using Suc.prems(3) that by (rule bestFrom_skip)
  have rk: "(case PRECEDENCE ?t of None \<Rightarrow> 100 | Some p \<Rightarrow> p) = rank ?t"
    by (simp add: rank_def)
  consider (rp) "?t = RPAREN" | (lp) "?t \<noteq> RPAREN" "?t = LPAREN"
    | (nz) "?t \<noteq> RPAREN" "?t \<noteq> LPAREN" "b \<noteq> 0"
    | (neg) "?t \<noteq> RPAREN" "?t \<noteq> LPAREN" "b = 0" "?t = SYM_NOT"
    | (tk) "?t \<noteq> RPAREN" "?t \<noteq> LPAREN" "b = 0" "?t \<noteq> SYM_NOT"
        "rank ?t < 100 \<and> rank ?t < m"
    | (kp) "?t \<noteq> RPAREN" "?t \<noteq> LPAREN" "b = 0" "?t \<noteq> SYM_NOT"
        "\<not> (rank ?t < 100 \<and> rank ?t < m)"
    by blast
  then show ?case
  proof cases
    case rp
    have step: "findSplit_loop toks (Suc n) b s m = findSplit_loop toks n (b + 1) s m"
      using rp by simp
    have "\<not> splitCandidate toks n" using rp cand isBinaryOp_not_special by blast
    then have "bestFrom toks n s m" by (rule skip)
    moreover have "b + 1 = balanceAt toks n" using bal rp by simp
    ultimately show ?thesis unfolding step using Suc.IH n(2) by blast
  next
    case lp
    have step: "findSplit_loop toks (Suc n) b s m = findSplit_loop toks n (b - 1) s m"
      using lp by simp
    have "\<not> splitCandidate toks n" using lp cand isBinaryOp_not_special by blast
    then have "bestFrom toks n s m" by (rule skip)
    moreover have "b - 1 = balanceAt toks n" using bal lp by simp
    ultimately show ?thesis unfolding step using Suc.IH n(2) by blast
  next
    case nz
    have step: "findSplit_loop toks (Suc n) b s m = findSplit_loop toks n b s m"
      using nz by simp
    have "\<not> splitCandidate toks n" using nz cand by blast
    then have "bestFrom toks n s m" by (rule skip)
    moreover have "b = balanceAt toks n" using bal nz by simp
    ultimately show ?thesis unfolding step using Suc.IH n(2) by blast
  next
    case neg
    have step: "findSplit_loop toks (Suc n) b s m = findSplit_loop toks n b s m"
      using neg by simp
    have "\<not> splitCandidate toks n" using neg cand isBinaryOp_not_special by blast
    then have "bestFrom toks n s m" by (rule skip)
    moreover have "b = balanceAt toks n" using bal neg by simp
    ultimately show ?thesis unfolding step using Suc.IH n(2) by blast
  next
    case tk
    have step: "findSplit_loop toks (Suc n) b s m = findSplit_loop toks n b (int n) (rank ?t)"
      using tk by (simp add: rk Let_def)
    have c: "splitCandidate toks n" using tk(3,5) cand rank_lt_100_iff [OF tk(4)] by simp
    have lt: "rank ?t < m" using tk(5) by simp
    have "bestFrom toks n (int n) (rank ?t)"
      by (rule bestFrom_take [OF Suc.prems(3) c lt])
    moreover have "b = balanceAt toks n" using bal tk by simp
    ultimately show ?thesis unfolding step using Suc.IH n(2) by blast
  next
    case kp
    have step: "findSplit_loop toks (Suc n) b s m = findSplit_loop toks n b s m"
      using kp by (auto simp: rk Let_def)
    have "bestFrom toks n s m"
    proof (cases "rank ?t < 100")
      case True
      then have c: "splitCandidate toks n" using cand rank_lt_100_iff [OF kp(4)] kp(3) by simp
      have le: "m \<le> rank ?t" using kp(5) True by simp
      show ?thesis by (rule bestFrom_keep [OF Suc.prems(3) c le True])
    next
      case False
      then have "\<not> splitCandidate toks n" using cand rank_lt_100_iff [OF kp(4)] by simp
      then show ?thesis by (rule skip)
    qed
    moreover have "b = balanceAt toks n" using bal kp by simp
    ultimately show ?thesis unfolding step using Suc.IH n(2) by blast
  qed
qed

lemma findSplit_best: "\<exists>m'. bestFrom toks 0 (findSplit toks) m'"
proof -
  have "bestFrom toks (length toks) (- 1) 100"
    by (simp add: bestFrom_def splitCandidate_def)
  moreover have "0 = balanceAt toks (length toks)"
    by (simp add: balanceAt_def)
  ultimately show ?thesis
    unfolding findSplit_def using findSplit_loop_best [of "length toks" toks 0 "- 1" 100]
    by simp
qed

lemma findSplit_none_iff:
  "findSplit toks = - 1 \<longleftrightarrow> (\<forall>j. \<not> splitCandidate toks j)"
proof -
  obtain m' where "bestFrom toks 0 (findSplit toks) m'" using findSplit_best by blast
  then show ?thesis unfolding bestFrom_def by fastforce
qed

lemma findSplit_some:
  assumes "findSplit toks \<noteq> - 1"
  shows "\<exists>k. findSplit toks = int k \<and> splitCandidate toks k \<and>
     (\<forall>j. splitCandidate toks j \<longrightarrow>
        rank (toks ! k) < rank (toks ! j) \<or> (rank (toks ! k) = rank (toks ! j) \<and> j \<le> k))"
proof -
  obtain m' where "bestFrom toks 0 (findSplit toks) m'" using findSplit_best by blast
  then show ?thesis using assms unfolding bestFrom_def by fastforce
qed

lemmas parse_eval = parseToAST.simps stripOuter.simps findSplit_def sym_defs PRECEDENCE_def
  isBalanced_def Let_def

lemma parseToAST_empty: "stripOuter toks = [] \<Longrightarrow> parseToAST toks = ATOM ERR"
  by (subst parseToAST.simps) simp

lemma parseToAST_single: "stripOuter toks = [t] \<Longrightarrow> parseToAST toks = ATOM t"
  by (subst parseToAST.simps) simp

lemma parseToAST_bin:
  "2 \<le> length (stripOuter toks) \<Longrightarrow> findSplit (stripOuter toks) = int k \<Longrightarrow>
      parseToAST toks =
        BIN (stripOuter toks ! k) (parseToAST (take k (stripOuter toks)))
          (parseToAST (drop (Suc k) (stripOuter toks)))"
  by (subst parseToAST.simps) (auto simp: Let_def)

lemma parseToAST_neg:
  "2 \<le> length (stripOuter toks) \<Longrightarrow> findSplit (stripOuter toks) = - 1 \<Longrightarrow>
   hd (stripOuter toks) = SYM_NOT \<Longrightarrow>
      parseToAST toks = NOT (parseToAST (tl (stripOuter toks)))"
  by (subst parseToAST.simps) (auto simp: Let_def drop_Suc)

lemma parseToAST_err:
  "2 \<le> length (stripOuter toks) \<Longrightarrow> findSplit (stripOuter toks) = - 1 \<Longrightarrow>
   hd (stripOuter toks) \<noteq> SYM_NOT \<Longrightarrow> parseToAST toks = ATOM ERR"
  by (subst parseToAST.simps) (auto simp: Let_def)

lemma treeHeight_pos: "0 < treeHeight t"
  by (cases t) simp_all

lemma stripped_cases:
  obtains (empty) "stripOuter toks = []"
  | (single) t where "stripOuter toks = [t]"
  | (bin) k where "2 \<le> length (stripOuter toks)" "findSplit (stripOuter toks) = int k"
      "k < length (stripOuter toks)"
  | (neg) "2 \<le> length (stripOuter toks)" "findSplit (stripOuter toks) = - 1"
      "hd (stripOuter toks) = SYM_NOT"
  | (err) "2 \<le> length (stripOuter toks)" "findSplit (stripOuter toks) = - 1"
      "hd (stripOuter toks) \<noteq> SYM_NOT"
proof -
  let ?ts = "stripOuter toks"
  consider "?ts = []" | t where "?ts = [t]" | "2 \<le> length ?ts"
    by (cases ?ts; cases "tl ?ts") auto
  then show ?thesis
  proof cases
    case 1
    then show ?thesis by (rule empty)
  next
    case 2
    then show ?thesis by (rule single)
  next
    case 3
    show ?thesis
    proof (cases "findSplit ?ts = - 1")
      case True
      then show ?thesis using 3 neg err by blast
    next
      case False
      then have "0 \<le> findSplit ?ts" "findSplit ?ts < int (length ?ts)"
        using findSplit_range [of ?ts] by auto
      then have "findSplit ?ts = int (nat (findSplit ?ts))" "nat (findSplit ?ts) < length ?ts"
        by auto
      then show ?thesis using 3 bin by blast
    qed
  qed
qed

lemma parseToAST_stack_empty:
  "stripOuter toks = [] \<Longrightarrow> parseToAST_stack (Suc n) toks = Inr (ATOM ERR)"
  by simp

lemma parseToAST_stack_single:
  "stripOuter toks = [t] \<Longrightarrow> parseToAST_stack (Suc n) toks = Inr (ATOM t)"
  by simp

lemma parseToAST_stack_bin:
  "2 \<le> length (stripOuter toks) \<Longrightarrow> findSplit (stripOuter toks) = int k \<Longrightarrow>
   parseToAST_stack (Suc n) toks =
     (case parseToAST_stack n (take k (stripOuter toks)) of
        Inl e \<Rightarrow> Inl e
      | Inr l \<Rightarrow>
          (case parseToAST_stack n (drop (Suc k) (stripOuter toks)) of
             Inl e \<Rightarrow> Inl e
           | Inr r \<Rightarrow> Inr (BIN (stripOuter toks ! k) l r)))"
  by (auto simp: Let_def split: sum.splits)

lemma parseToAST_stack_neg:
  "2 \<le> length (stripOuter toks) \<Longrightarrow> findSplit (stripOuter toks) = - 1 \<Longrightarrow>
   hd (stripOuter toks) = SYM_NOT \<Longrightarrow>
   parseToAST_stack (Suc n) toks =
     (case parseToAST_stack n (tl (stripOuter toks)) of
        Inl e \<Rightarrow> Inl e
      | Inr l \<Rightarrow> Inr (NOT l))"
  by (auto simp: Let_def drop_Suc split: sum.splits)

lemma parseToAST_stack_err:
  "2 \<le> length (stripOuter toks) \<Longrightarrow> findSplit (stripOuter toks) = - 1 \<Longrightarrow>
   hd (stripOuter toks) \<noteq> SYM_NOT \<Longrightarrow> parseToAST_stack (Suc n) toks = Inr (ATOM ERR)"
  by (auto simp: Let_def)

declare parseToAST_stack.simps(2) [simp del]

lemma parseToAST_stack_eq:
  "parseToAST_stack frames toks =
     (if treeHeight (parseToAST toks) \<le> frames then Inr (parseToAST toks) else Inl RangeError)"
proof (induction frames arbitrary: toks)
  case 0
  then show ?case using treeHeight_pos [of "parseToAST toks"] by simp
next
  case (Suc n)
  show ?case
  proof (cases toks rule: stripped_cases)
    case empty
    then show ?thesis by (simp add: parseToAST_stack_empty parseToAST_empty)
  next
    case (single t)
    then show ?thesis by (simp add: parseToAST_stack_single parseToAST_single)
  next
    case (bin k)
    show ?thesis
      unfolding parseToAST_stack_bin [OF bin(1,2)] parseToAST_bin [OF bin(1,2)] Suc.IH
      by simp
  next
    case neg
    show ?thesis
      unfolding parseToAST_stack_neg [OF neg] parseToAST_neg [OF neg] Suc.IH
      by simp
  next
    case err
    then show ?thesis by (simp add: parseToAST_stack_err parseToAST_err)
  qed
qed

lemma treeHeight_parseToAST: "treeHeight (parseToAST toks) \<le> max 1 (length toks)"
proof (induction toks rule: length_induct)
  case (1 toks)
  let ?ts = "stripOuter toks"
  have le: "length ?ts \<le> length toks" by (rule length_stripOuter)
  have ih: "treeHeight (parseToAST ys) \<le> max 1 (length ys)" if "length ys < length toks" for ys
    using 1 that by blast
  show ?case
  proof (cases toks rule: stripped_cases)
    case empty
    then show ?thesis by (simp add: parseToAST_empty)
  next
    case (single t)
    then show ?thesis by (simp add: parseToAST_single)
  next
    case (bin k)
    have "treeHeight (parseToAST (take k ?ts)) \<le> max 1 (length (take k ?ts))"
      using bin(3) le by (intro ih) simp
    moreover have "treeHeight (parseToAST (drop (Suc k) ?ts)) \<le> max 1 (length (drop (Suc k) ?ts))"
      using bin(3) le by (intro ih) simp
    ultimately show ?thesis
      unfolding parseToAST_bin [OF bin(1,2)] using bin(1,3) le by simp
  next
    case neg
    have "treeHeight (parseToAST (tl ?ts)) \<le> max 1 (length (tl ?ts))"
      using neg(1) le by (intro ih) simp
    then show ?thesis unfolding parseToAST_neg [OF neg] using neg(1) le by simp
  next
    case err
    then show ?thesis by (simp add: parseToAST_err)
  qed
qed

lemma findSplit_negations: "findSplit (replicate k SYM_NOT @ [LIT1]) = - 1"
proof -
  have "\<not> isBinaryOp ((replicate k SYM_NOT @ [LIT1]) ! j)" if "j < Suc k" for j
    using that by (cases "j < k") (auto simp: nth_append isBinaryOp_def sym_defs)
  then have "\<not> splitCandidate (replicate k SYM_NOT @ [LIT1]) j" for j
    unfolding splitCandidate_def by auto
  then show ?thesis unfolding findSplit_none_iff by blast
qed

lemma treeHeight_negations: "treeHeight (parseToAST (replicate k SYM_NOT @ [LIT1])) = Suc k"
proof (induction k)
  case 0
  have "stripOuter [LIT1] = [LIT1]" by (subst stripOuter.simps) (simp add: sym_defs)
  then show ?case by (simp add: parseToAST_single)
next
  case (Suc k)
  let ?ts = "replicate (Suc k) SYM_NOT @ [LIT1]"
  have s: "stripOuter ?ts = ?ts" by (subst stripOuter.simps) (simp add: sym_defs)
  have "parseToAST ?ts = NOT (parseToAST (tl (stripOuter ?ts)))"
  proof (rule parseToAST_neg)
    show "2 \<le> length (stripOuter ?ts)" unfolding s by simp
    show "findSplit (stripOuter ?ts) = - 1" unfolding s by (rule findSplit_negations)
    show "hd (stripOuter ?ts) = SYM_NOT" unfolding s by simp
  qed
  then show ?case using Suc unfolding s by simp
qed

lemma parseToAST_stack_negations:
  "frames \<le> k \<Longrightarrow> parseToAST_stack frames (replicate k SYM_NOT @ [LIT1]) = Inl RangeError"
  unfolding parseToAST_stack_eq treeHeight_negations by simp

text \<open>
  Claim C3, as amended. \<open>parseToAST\<close> returns a node, and throws nothing, exactly when the
  tree it builds is at most as high as the call stack has room for activations; a token
  list of at most that many tokens always is, whether balanced or not and with orphan
  operators or not. Otherwise the call throws \<open>RangeError\<close>: so it does on \<open>k\<close> negation
  signs before a literal where at most \<open>k\<close> activations fit. Which node is returned is
  decided by the stripped slice alone: the parse-error atom \<open>ATOM ERR\<close> when the stripped
  slice is empty, and when it has at least two tokens, no split and no leading NOT.
\<close>

theorem parseToAST_stack_bound:
  "parseToAST_stack frames toks =
     (if treeHeight (parseToAST toks) \<le> frames then Inr (parseToAST toks) else Inl RangeError) \<and>
   treeHeight (parseToAST toks) \<le> max 1 (length toks) \<and>
   (max 1 (length toks) \<le> frames \<longrightarrow> parseToAST_stack frames toks = Inr (parseToAST toks)) \<and>
   (frames \<le> k \<longrightarrow> parseToAST_stack frames (replicate k SYM_NOT @ [LIT1]) = Inl RangeError) \<and>
   (stripOuter toks = [] \<longrightarrow> parseToAST toks = ATOM ERR) \<and>
   (length (stripOuter toks) = 1 \<longrightarrow> parseToAST toks = ATOM (hd (stripOuter toks))) \<and>
   (2 \<le> length (stripOuter toks) \<and> findSplit (stripOuter toks) \<noteq> - 1 \<longrightarrow>
      parseToAST toks =
        BIN (stripOuter toks ! nat (findSplit (stripOuter toks)))
          (parseToAST (take (nat (findSplit (stripOuter toks))) (stripOuter toks)))
          (parseToAST (drop (nat (findSplit (stripOuter toks)) + 1) (stripOuter toks)))) \<and>
   (2 \<le> length (stripOuter toks) \<and> findSplit (stripOuter toks) = - 1
      \<and> hd (stripOuter toks) = SYM_NOT \<longrightarrow>
      parseToAST toks = NOT (parseToAST (tl (stripOuter toks)))) \<and>
   (2 \<le> length (stripOuter toks) \<and> findSplit (stripOuter toks) = - 1
      \<and> hd (stripOuter toks) \<noteq> SYM_NOT \<longrightarrow>
      parseToAST toks = ATOM ERR)"
proof (intro conjI impI)
  show "parseToAST_stack frames toks =
     (if treeHeight (parseToAST toks) \<le> frames then Inr (parseToAST toks) else Inl RangeError)"
    by (rule parseToAST_stack_eq)
  show "treeHeight (parseToAST toks) \<le> max 1 (length toks)" by (rule treeHeight_parseToAST)
  show "parseToAST_stack frames toks = Inr (parseToAST toks)" if "max 1 (length toks) \<le> frames"
  proof -
    have "treeHeight (parseToAST toks) \<le> frames"
      using treeHeight_parseToAST [of toks] that by (rule order_trans)
    then show ?thesis unfolding parseToAST_stack_eq by simp
  qed
  show "parseToAST_stack frames (replicate k SYM_NOT @ [LIT1]) = Inl RangeError" if "frames \<le> k"
    using that by (rule parseToAST_stack_negations)
  show "parseToAST toks = ATOM ERR" if "stripOuter toks = []"
    using that by (rule parseToAST_empty)
  show "parseToAST toks = ATOM (hd (stripOuter toks))" if "length (stripOuter toks) = 1"
  proof -
    from that obtain t where "stripOuter toks = [t]"
      by (cases "stripOuter toks") auto
    then show ?thesis by (simp add: parseToAST_single)
  qed
  show "parseToAST toks =
        BIN (stripOuter toks ! nat (findSplit (stripOuter toks)))
          (parseToAST (take (nat (findSplit (stripOuter toks))) (stripOuter toks)))
          (parseToAST (drop (nat (findSplit (stripOuter toks)) + 1) (stripOuter toks)))"
    if "2 \<le> length (stripOuter toks) \<and> findSplit (stripOuter toks) \<noteq> - 1"
  proof -
    have "findSplit (stripOuter toks) = int (nat (findSplit (stripOuter toks)))"
      using that findSplit_range [of "stripOuter toks"] by auto
    then show ?thesis using parseToAST_bin that by simp
  qed
  show "parseToAST toks = NOT (parseToAST (tl (stripOuter toks)))"
    if "2 \<le> length (stripOuter toks) \<and> findSplit (stripOuter toks) = - 1
      \<and> hd (stripOuter toks) = SYM_NOT"
    using that by (simp add: parseToAST_neg)
  show "parseToAST toks = ATOM ERR"
    if "2 \<le> length (stripOuter toks) \<and> findSplit (stripOuter toks) = - 1
      \<and> hd (stripOuter toks) \<noteq> SYM_NOT"
    using that by (simp add: parseToAST_err)
qed

theorem parseToAST_stack_bound_witness:
  "parseToAST_stack 3 [[80], SYM_AND, [81]] = Inr (BIN SYM_AND (ATOM [80]) (ATOM [81])) \<and>
   parseToAST_stack 3 (replicate 3 SYM_NOT @ [LIT1]) = Inl RangeError \<and>
   parseToAST [] = ATOM ERR \<and>
   parseToAST [LPAREN, RPAREN] = ATOM ERR \<and>
   parseToAST [[80]] = ATOM [80] \<and>
   parseToAST [[80], SYM_AND, [81]] = BIN SYM_AND (parseToAST [[80]]) (parseToAST [[81]]) \<and>
   parseToAST [SYM_NOT, [80]] = NOT (parseToAST [[80]]) \<and>
   parseToAST [[80], [81]] = ATOM ERR \<and>
   parseToAST [RPAREN, SYM_AND, LPAREN] = ATOM ERR"
proof -
  have s: "stripOuter [] = []" "stripOuter [LPAREN, RPAREN] = []"
    "stripOuter [[80]] = [[80]]" "stripOuter [[81]] = [[81]]"
    "stripOuter [[80], SYM_AND, [81]] = [[80], SYM_AND, [81]]"
    "stripOuter [SYM_NOT, [80]] = [SYM_NOT, [80]]" "stripOuter [[80], [81]] = [[80], [81]]"
    "stripOuter [RPAREN, SYM_AND, LPAREN] = [RPAREN, SYM_AND, LPAREN]"
    by (simp_all add: stripOuter.simps isBalanced_def sym_defs)
  have f: "findSplit [[80], SYM_AND, [81]] = 1" "findSplit [SYM_NOT, [80]] = - 1"
    "findSplit [[80], [81]] = - 1" "findSplit [RPAREN, SYM_AND, LPAREN] = - 1"
    by (simp_all add: findSplit_def sym_defs PRECEDENCE_def)
  have a: "parseToAST [[80]] = ATOM [80]" "parseToAST [[81]] = ATOM [81]"
    using parseToAST_stack_bound [of 0 "[[80]]" 0] parseToAST_stack_bound [of 0 "[[81]]" 0]
    unfolding s by simp_all
  have b: "parseToAST [[80], SYM_AND, [81]] = BIN SYM_AND (parseToAST [[80]]) (parseToAST [[81]])"
    using parseToAST_stack_bound [of 0 "[[80], SYM_AND, [81]]" 0]
    unfolding s f by (simp add: sym_defs)
  have c: "parseToAST_stack 3 [[80], SYM_AND, [81]] = Inr (parseToAST [[80], SYM_AND, [81]])"
    using parseToAST_stack_bound [of 3 "[[80], SYM_AND, [81]]" 0]
    by simp
  have d: "parseToAST_stack 3 (replicate 3 SYM_NOT @ [LIT1]) = Inl RangeError"
    using parseToAST_stack_bound [of 3 "[]" 3] by simp
  have e: "parseToAST [] = ATOM ERR \<and> parseToAST [LPAREN, RPAREN] = ATOM ERR \<and>
      parseToAST [SYM_NOT, [80]] = NOT (parseToAST [[80]]) \<and>
      parseToAST [[80], [81]] = ATOM ERR \<and> parseToAST [RPAREN, SYM_AND, LPAREN] = ATOM ERR"
    using parseToAST_stack_bound [of 0 "[]" 0] parseToAST_stack_bound [of 0 "[LPAREN, RPAREN]" 0]
      parseToAST_stack_bound [of 0 "[SYM_NOT, [80]]" 0]
      parseToAST_stack_bound [of 0 "[[80], [81]]" 0]
      parseToAST_stack_bound [of 0 "[RPAREN, SYM_AND, LPAREN]" 0]
    unfolding s f by (simp add: sym_defs)
  show ?thesis using a b c d e by simp
qed

text \<open>
  The claim as stated fails on a deep input: where 10000 activations fit, the parse of
  10000 negation signs before a literal throws.
\<close>

theorem parseToAST_stack_overflow_counterexample:
  "parseToAST_stack 10000 (replicate 10000 SYM_NOT @ [LIT1]) = Inl RangeError"
  by (rule parseToAST_stack_negations) simp

text \<open>
  Claim C2, as amended. When the stripped slice has at least two tokens and a binary
  connective at balance zero, the result is a binary node split at the index \<open>k\<close> that
  \<open>findSplit\<close> returns: \<open>k\<close> is a candidate (a binary connective, never NOT, at balance
  zero), no candidate has a lower rank, and every other occurrence of the same connective
  among the candidates lies left of \<open>k\<close>. The split is at the rightmost occurrence, so
  the occurrences left of it go to the left operand: repeated occurrences of one connective
  nest to the left. The tokens \<open>P \<or> Q \<and> R\<close> give \<open>(P \<or> (Q \<and> R))\<close>, and
  \<open>P \<and> Q \<and> R\<close> give \<open>((P \<and> Q) \<and> R)\<close>.
\<close>

theorem parse_split_selection:
  "(2 \<le> length (stripOuter toks) \<and> splitCandidate (stripOuter toks) j \<longrightarrow>
    (\<exists>k. findSplit (stripOuter toks) = int k \<and> splitCandidate (stripOuter toks) k \<and>
     (\<forall>i. splitCandidate (stripOuter toks) i \<longrightarrow>
        rank (stripOuter toks ! k) < rank (stripOuter toks ! i) \<or>
        (stripOuter toks ! i = stripOuter toks ! k \<and> i \<le> k)) \<and>
     parseToAST toks =
       BIN (stripOuter toks ! k) (parseToAST (take k (stripOuter toks)))
         (parseToAST (drop (Suc k) (stripOuter toks))))) \<and>
   toFullString (parseToAST [[80], SYM_OR, [81], SYM_AND, [82]])
     = [40, 80, 32, 8744, 32, 40, 81, 32, 8743, 32, 82, 41, 41] \<and>
   toFullString (parseToAST [[80], SYM_AND, [81], SYM_AND, [82]])
     = [40, 40, 80, 32, 8743, 32, 81, 41, 32, 8743, 32, 82, 41]"
proof (intro conjI impI)
  let ?ts = "stripOuter toks"
  assume a: "2 \<le> length ?ts \<and> splitCandidate ?ts j"
  have ne: "findSplit ?ts \<noteq> - 1" using a findSplit_none_iff by blast
  then obtain k where k: "findSplit ?ts = int k" "splitCandidate ?ts k"
    "\<And>i. splitCandidate ?ts i \<Longrightarrow>
        rank (?ts ! k) < rank (?ts ! i) \<or> (rank (?ts ! k) = rank (?ts ! i) \<and> i \<le> k)"
    using findSplit_some [OF ne] by blast
  have same: "?ts ! i = ?ts ! k" if "splitCandidate ?ts i" "rank (?ts ! k) = rank (?ts ! i)" for i
    using that k(2) unfolding splitCandidate_def isBinaryOp_def rank_def PRECEDENCE_def
    by (auto simp: sym_defs split: if_splits)
  have "parseToAST toks = BIN (?ts ! k) (parseToAST (take k ?ts)) (parseToAST (drop (Suc k) ?ts))"
    using a k(1) by (intro parseToAST_bin) auto
  then show "\<exists>k. findSplit ?ts = int k \<and> splitCandidate ?ts k \<and>
     (\<forall>i. splitCandidate ?ts i \<longrightarrow>
        rank (?ts ! k) < rank (?ts ! i) \<or> (?ts ! i = ?ts ! k \<and> i \<le> k)) \<and>
     parseToAST toks = BIN (?ts ! k) (parseToAST (take k ?ts)) (parseToAST (drop (Suc k) ?ts))"
    using k same by blast
next
  show "toFullString (parseToAST [[80], SYM_OR, [81], SYM_AND, [82]])
     = [40, 80, 32, 8744, 32, 40, 81, 32, 8743, 32, 82, 41, 41]"
    by (simp add: parse_eval)
next
  show "toFullString (parseToAST [[80], SYM_AND, [81], SYM_AND, [82]])
     = [40, 40, 80, 32, 8743, 32, 81, 41, 32, 8743, 32, 82, 41]"
    by (simp add: parse_eval)
qed

theorem parse_split_selection_witness:
  "findSplit [LPAREN, [80], RPAREN, SYM_IMP, [81], SYM_IMP, SYM_NOT, [82]] = 5 \<and>
   parseToAST [LPAREN, [80], RPAREN, SYM_IMP, [81], SYM_IMP, SYM_NOT, [82]] =
     BIN SYM_IMP (parseToAST [LPAREN, [80], RPAREN, SYM_IMP, [81]]) (parseToAST [SYM_NOT, [82]])"
proof -
  let ?toks = "[LPAREN, [80], RPAREN, SYM_IMP, [81], SYM_IMP, SYM_NOT, [82]]"
  have s: "stripOuter ?toks = ?toks"
    by (simp add: stripOuter.simps isBalanced_def sym_defs)
  have c: "splitCandidate ?toks 3"
    by (simp add: splitCandidate_def isBinaryOp_def balanceAt_def sym_defs)
  have f: "findSplit ?toks = 5"
    by (simp add: findSplit_def sym_defs PRECEDENCE_def)
  have l: "2 \<le> length (stripOuter ?toks)" unfolding s by simp
  from parse_split_selection [of ?toks 3] l c
  have "\<exists>k. findSplit ?toks = int k \<and>
     parseToAST ?toks = BIN (?toks ! k) (parseToAST (take k ?toks)) (parseToAST (drop (Suc k) ?toks))"
    unfolding s by blast
  then obtain k where k: "findSplit ?toks = int k"
    "parseToAST ?toks = BIN (?toks ! k) (parseToAST (take k ?toks)) (parseToAST (drop (Suc k) ?toks))"
    by blast
  from k(1) f have "k = 5" by simp
  with k(2) f show ?thesis by (simp add: numeral_eq_Suc)
qed

text \<open>
  The claim as stated fails in two places. Two occurrences of the same connective do not
  nest to the right: \<open>P \<and> Q \<and> R\<close> is \<open>((P \<and> Q) \<and> R)\<close>. And a slice that holds a
  binary connective at balance zero need not give a binary node: the single token \<open>\<and>\<close>
  is returned as an atom.
\<close>

theorem parse_split_selection_counterexample:
  "parseToAST [[80], SYM_AND, [81], SYM_AND, [82]]
     = BIN SYM_AND (BIN SYM_AND (ATOM [80]) (ATOM [81])) (ATOM [82]) \<and>
   parseToAST [[80], SYM_AND, [81], SYM_AND, [82]]
     \<noteq> BIN SYM_AND (ATOM [80]) (BIN SYM_AND (ATOM [81]) (ATOM [82])) \<and>
   splitCandidate [SYM_AND] 0 \<and> parseToAST [SYM_AND] = ATOM SYM_AND"
  by (simp add: parse_eval splitCandidate_def isBinaryOp_def balanceAt_def)

text \<open>
  Claim C10, as amended. When the stripped slice is a single token, the result is the
  atom that carries this token verbatim, also when the token is a lone operator or a
  parenthesis. The result is the parse-error atom exactly when the token itself is the
  text \<open>ERR\<close>.
\<close>

theorem parse_single_token:
  "(stripOuter toks = [t] \<longrightarrow>
      parseToAST toks = ATOM t \<and> (parseToAST toks = ATOM ERR \<longleftrightarrow> t = ERR)) \<and>
   parseToAST [SYM_AND] = ATOM SYM_AND \<and> parseToAST [LPAREN] = ATOM LPAREN"
  by (auto simp: parseToAST_single) (simp_all add: parse_eval)

theorem parse_single_token_witness:
  "stripOuter [LPAREN, [80], RPAREN] = [[80]] \<and> parseToAST [LPAREN, [80], RPAREN] = ATOM [80]
   \<and> parseToAST [LPAREN, [80], RPAREN] \<noteq> ATOM ERR"
proof -
  have s: "stripOuter [LPAREN, [80], RPAREN] = [[80]]"
    by (simp add: stripOuter.simps isBalanced_def sym_defs)
  show ?thesis using s parse_single_token [of "[LPAREN, [80], RPAREN]" "[80]"]
    by (simp add: sym_defs)
qed

text \<open>
  The claim as stated fails for the token \<open>ERR\<close>: the parser returns the atom with value
  \<open>ERR\<close>, which is the parse-error atom, the result for the empty token list.
\<close>

theorem parse_single_token_counterexample:
  "stripOuter [ERR] = [ERR] \<and> parseToAST [ERR] = ATOM ERR \<and> parseToAST [ERR] = parseToAST []"
  by (simp add: parse_eval)

section \<open>Properties of the evaluator\<close>

lemma evalAST_stack_eq:
  "evalAST_stack frames up values t =
     (if treeHeight t \<le> frames then Inr (evalAST up values t) else Inl RangeError)"
proof (induction t arbitrary: frames)
  case (ATOM v)
  then show ?case by (cases frames) simp_all
next
  case (NOT l)
  then show ?case by (cases frames) simp_all
next
  case (BIN v l r)
  then show ?case by (cases frames) (simp_all add: Let_def)
qed

lemma solveProposition_try_eq:
  "solveProposition_try frames up str values =
     (if treeHeight (parseToAST (tokenize str)) \<le> frames
      then Inr (evalAST up values (parseToAST (tokenize str))) else Inl RangeError)"
  unfolding solveProposition_try_def Let_def parseToAST_stack_eq by (simp add: evalAST_stack_eq)

lemma solveProposition_eq:
  "solveProposition frames up str values =
     Inr (treeHeight (parseToAST (tokenize str)) \<le> frames
          \<and> evalAST up values (parseToAST (tokenize str)))"
  unfolding solveProposition_def solveProposition_try_eq by simp

text \<open>
  Claim C6, as amended. \<open>solveProposition\<close> returns a boolean for every formula string and
  every assignment, and no exception leaves it: when parsing and evaluating the formula
  fit the call stack, which they do when the formula has at most as many tokens as
  activations fit, the result is the value of the tree; when they do not, the
  \<open>RangeError\<close> is caught and the result is false, whatever the value of the tree. The
  literals \<open>1\<close> and \<open>T\<close> evaluate to true, \<open>0\<close> and \<open>F\<close> to false, and a variable whose
  upper-cased name is absent from the assignment to false. The parse-error atom is looked
  up like any variable, under the name \<open>ERR\<close>: it evaluates to false unless the assignment
  binds that name to true.
\<close>

theorem solveProposition_never_throws:
  "(\<exists>b. solveProposition frames up str values = Inr b) \<and>
   (treeHeight (parseToAST (tokenize str)) \<le> frames \<longrightarrow>
      solveProposition_try frames up str values
        = Inr (evalAST up values (parseToAST (tokenize str))) \<and>
      solveProposition frames up str values
        = Inr (evalAST up values (parseToAST (tokenize str)))) \<and>
   (max 1 (length (tokenize str)) \<le> frames \<longrightarrow>
      solveProposition frames up str values
        = Inr (evalAST up values (parseToAST (tokenize str)))) \<and>
   (frames < treeHeight (parseToAST (tokenize str)) \<longrightarrow>
      solveProposition_try frames up str values = Inl RangeError \<and>
      solveProposition frames up str values = Inr False) \<and>
   evalAST up values (ATOM LIT1) \<and> evalAST up values (ATOM LITT) \<and>
   \<not> evalAST up values (ATOM LIT0) \<and> \<not> evalAST up values (ATOM LITF) \<and>
   (v \<noteq> LIT1 \<and> v \<noteq> LITT \<and> values (up v) = None \<longrightarrow> \<not> evalAST up values (ATOM v)) \<and>
   (values (up ERR) \<noteq> Some True \<longrightarrow> \<not> evalAST up values (ATOM ERR)) \<and>
   (tokenize str = [] \<and> values (up ERR) \<noteq> Some True \<longrightarrow>
      solveProposition frames up str values = Inr False) \<and>
   (tokenize str = [v] \<and> v \<noteq> LIT1 \<and> v \<noteq> LITT \<and> values (up v) = None \<longrightarrow>
      solveProposition frames up str values = Inr False) \<and>
   (1 \<le> frames \<and> (tokenize str = [LIT1] \<or> tokenize str = [LITT]) \<longrightarrow>
      solveProposition frames up str values = Inr True) \<and>
   (tokenize str = [LIT0] \<or> tokenize str = [LITF] \<longrightarrow>
      solveProposition frames up str values = Inr False)"
proof -
  let ?t = "parseToAST (tokenize str)"
  have single: "parseToAST [t] = ATOM t" for t
    by (rule parseToAST_single) (simp add: stripOuter.simps sym_defs)
  have empty: "parseToAST [] = ATOM ERR"
    by (rule parseToAST_empty) (simp add: stripOuter.simps)
  have err: "values (up ERR) \<noteq> Some True \<Longrightarrow> \<not> evalAST up values (ATOM ERR)"
    by (cases "values (up ERR)") (auto simp: sym_defs)
  have fits: "treeHeight ?t \<le> frames" if "max 1 (length (tokenize str)) \<le> frames"
    using treeHeight_parseToAST [of "tokenize str"] that by (rule order_trans)
  have 1: "\<exists>b. solveProposition frames up str values = Inr b"
    unfolding solveProposition_eq by blast
  have 2: "treeHeight ?t \<le> frames \<longrightarrow>
      solveProposition_try frames up str values = Inr (evalAST up values ?t) \<and>
      solveProposition frames up str values = Inr (evalAST up values ?t)"
    unfolding solveProposition_eq solveProposition_try_eq by simp
  have 3: "max 1 (length (tokenize str)) \<le> frames \<longrightarrow>
      solveProposition frames up str values = Inr (evalAST up values ?t)"
    using fits unfolding solveProposition_eq by simp
  have 4: "frames < treeHeight ?t \<longrightarrow>
      solveProposition_try frames up str values = Inl RangeError \<and>
      solveProposition frames up str values = Inr False"
    unfolding solveProposition_eq solveProposition_try_eq by simp
  have 5: "evalAST up values (ATOM LIT1) \<and> evalAST up values (ATOM LITT) \<and>
      \<not> evalAST up values (ATOM LIT0) \<and> \<not> evalAST up values (ATOM LITF) \<and>
      (v \<noteq> LIT1 \<and> v \<noteq> LITT \<and> values (up v) = None \<longrightarrow> \<not> evalAST up values (ATOM v)) \<and>
      (values (up ERR) \<noteq> Some True \<longrightarrow> \<not> evalAST up values (ATOM ERR))"
    using err by (auto simp: sym_defs)
  have 6: "tokenize str = [] \<and> values (up ERR) \<noteq> Some True \<longrightarrow>
      solveProposition frames up str values = Inr False"
    using err unfolding solveProposition_eq by (auto simp: empty)
  have 7: "tokenize str = [v] \<and> v \<noteq> LIT1 \<and> v \<noteq> LITT \<and> values (up v) = None \<longrightarrow>
      solveProposition frames up str values = Inr False"
    using 5 unfolding solveProposition_eq by (auto simp: single)
  have 8: "1 \<le> frames \<and> (tokenize str = [LIT1] \<or> tokenize str = [LITT]) \<longrightarrow>
      solveProposition frames up str values = Inr True"
    unfolding solveProposition_eq by (auto simp: single)
  have 9: "tokenize str = [LIT0] \<or> tokenize str = [LITF] \<longrightarrow>
      solveProposition frames up str values = Inr False"
    unfolding solveProposition_eq by (auto simp: single sym_defs)
  show ?thesis using 1 2 3 4 5 6 7 8 9 by blast
qed

theorem solveProposition_never_throws_witness:
  "solveProposition 2 asciiUpper [112] (Map.empty([81] \<mapsto> True)) = Inr False \<and>
   solveProposition 2 asciiUpper [] (Map.empty([81] \<mapsto> True)) = Inr False \<and>
   solveProposition 2 asciiUpper [32, 49] Map.empty = Inr True \<and>
   solveProposition 2 asciiUpper [70] (Map.empty([70] \<mapsto> True)) = Inr False \<and>
   solveProposition 3 asciiUpper [172, 172, 49] Map.empty = Inr True \<and>
   solveProposition_try 2 asciiUpper [172, 172, 49] Map.empty = Inl RangeError \<and>
   solveProposition 2 asciiUpper [172, 172, 49] Map.empty = Inr False"
proof -
  have t: "tokenize [112] = [[112]]" "tokenize [] = []" "tokenize [32, 49] = [LIT1]"
    "tokenize [70] = [LITF]" "tokenize [172, 172, 49] = [SYM_NOT, SYM_NOT, LIT1]"
    by (simp_all add: tokenize_def isSpace_def isDelimiter_def sym_defs)
  have p: "parseToAST [SYM_NOT, SYM_NOT, LIT1] = NOT (NOT (ATOM LIT1))"
    "parseToAST [[112]] = ATOM [112]" "parseToAST [] = ATOM ERR"
    "parseToAST [LIT1] = ATOM LIT1" "parseToAST [LITF] = ATOM LITF"
    by (simp_all add: parse_eval)
  have a: "solveProposition 2 asciiUpper [112] (Map.empty([81] \<mapsto> True)) = Inr False"
    using solveProposition_never_throws [of 2 asciiUpper "[112]" "Map.empty([81] \<mapsto> True)" "[112]"]
    unfolding t p by (simp add: asciiUpper_def sym_defs)
  have b: "solveProposition 2 asciiUpper [] (Map.empty([81] \<mapsto> True)) = Inr False"
    using solveProposition_never_throws [of 2 asciiUpper "[]" "Map.empty([81] \<mapsto> True)" "[]"]
    unfolding t p by (simp add: asciiUpper_def sym_defs)
  have c: "solveProposition 2 asciiUpper [32, 49] Map.empty = Inr True"
    using solveProposition_never_throws [of 2 asciiUpper "[32, 49]" "Map.empty" "[]"]
    unfolding t p by (simp add: sym_defs)
  have d: "solveProposition 2 asciiUpper [70] (Map.empty([70] \<mapsto> True)) = Inr False"
    using solveProposition_never_throws [of 2 asciiUpper "[70]" "Map.empty([70] \<mapsto> True)" "[]"]
    unfolding t p by (simp add: sym_defs)
  have e: "solveProposition 3 asciiUpper [172, 172, 49] Map.empty = Inr True"
    using solveProposition_never_throws [of 3 asciiUpper "[172, 172, 49]" "Map.empty" "[]"]
    unfolding t p by (simp add: sym_defs)
  have f: "solveProposition_try 2 asciiUpper [172, 172, 49] Map.empty = Inl RangeError \<and>
      solveProposition 2 asciiUpper [172, 172, 49] Map.empty = Inr False"
    using solveProposition_never_throws [of 2 asciiUpper "[172, 172, 49]" "Map.empty" "[]"]
    unfolding t p by (simp add: sym_defs)
  show ?thesis using a b c d e f by blast
qed

text \<open>
  The claim as stated fails when the assignment binds the name \<open>ERR\<close> to true, as the
  truth table does for a formula in which \<open>ERR\<close> occurs as a variable: the parse-error
  atom that the empty group \<open>()\<close> yields then evaluates to true.
\<close>

theorem solveProposition_error_atom_counterexample:
  "parseToAST (tokenize [40, 41]) = ATOM ERR \<and>
   solveProposition 10000 asciiUpper [40, 41] (Map.empty(ERR \<mapsto> True)) = Inr True \<and>
   parseToAST (tokenize [69, 82, 82, 8743, 40, 41]) = BIN SYM_AND (ATOM ERR) (ATOM ERR) \<and>
   solveProposition 10000 asciiUpper [69, 82, 82, 8743, 40, 41] (Map.empty(ERR \<mapsto> True))
     = Inr True"
proof -
  have t: "tokenize [40, 41] = [LPAREN, RPAREN]"
    "tokenize [69, 82, 82, 8743, 40, 41] = [ERR, SYM_AND, LPAREN, RPAREN]"
    by (simp_all add: tokenize_def isSpace_def isDelimiter_def sym_defs)
  have p: "parseToAST [LPAREN, RPAREN] = ATOM ERR"
    "parseToAST [ERR, SYM_AND, LPAREN, RPAREN] = BIN SYM_AND (ATOM ERR) (ATOM ERR)"
    by (simp_all add: parse_eval)
  show ?thesis unfolding solveProposition_eq t p
    by (simp add: sym_defs asciiUpper_def)
qed

section \<open>Properties of the sub-expression extractor\<close>

lemma set_setAdd: "set (setAdd x xs) = insert x (set xs)"
  by (auto simp: setAdd_def)

lemma distinct_setAdd: "distinct xs \<Longrightarrow> distinct (setAdd x xs)"
  by (auto simp: setAdd_def)

lemma compound_simps:
  "{n \<in> subtrees (ATOM v). \<not> isAtomNode n} = {}"
  "{n \<in> subtrees (NOT l). \<not> isAtomNode n} = insert (NOT l) {n \<in> subtrees l. \<not> isAtomNode n}"
  "{n \<in> subtrees (BIN v l r). \<not> isAtomNode n} =
     insert (BIN v l r) ({n \<in> subtrees l. \<not> isAtomNode n} \<union> {n \<in> subtrees r. \<not> isAtomNode n})"
  by auto

lemma set_getSubExpressions:
  "set (getSubExpressions t acc) =
     set acc \<union> toFullString ` {n \<in> subtrees t. \<not> isAtomNode n}"
proof (induction t arbitrary: acc)
  case (ATOM v)
  then show ?case by (simp only: compound_simps getSubExpressions.simps) simp
next
  case (NOT t)
  show ?case
    by (simp only: getSubExpressions.simps NOT.IH set_setAdd compound_simps image_insert)
       (simp del: toFullString.simps)
next
  case (BIN v l r)
  show ?case
    by (simp only: getSubExpressions.simps BIN.IH set_setAdd compound_simps image_insert image_Un)
       (auto simp del: toFullString.simps)
qed

lemma distinct_getSubExpressions:
  "distinct acc \<Longrightarrow> distinct (getSubExpressions t acc)"
  by (induction t arbitrary: acc) (simp_all add: distinct_setAdd)

lemma tokenize_conjunction: "tokenize [40, 80, 32, 8743, 32, 81, 41] = [LPAREN, [80], SYM_AND, [81], RPAREN]"
  by (simp add: tokenize_def isSpace_def isDelimiter_def sym_defs)

text \<open>
  Claim C8. Started on the empty set, \<open>getSubExpressions\<close> returns exactly the canonical
  renderings of the negation and binary nodes of the tree: atoms contribute nothing, and
  the result has no duplicates, so equal renderings collapse to one entry. On the tree of
  \<open>(P \<and> Q)\<close> the result is the one string \<open>(P \<and> Q)\<close>, and the two equal operands of
  \<open>((P \<and> Q) \<or> (P \<and> Q))\<close> give one entry.
\<close>

theorem getSubExpressions_exact:
  "set (getSubExpressions t []) = toFullString ` {n \<in> subtrees t. \<not> isAtomNode n} \<and>
   distinct (getSubExpressions t []) \<and>
   getSubExpressions (parseToAST (tokenize [40, 80, 32, 8743, 32, 81, 41])) []
     = [[40, 80, 32, 8743, 32, 81, 41]] \<and>
   getSubExpressions
     (BIN SYM_OR (BIN SYM_AND (ATOM [80]) (ATOM [81])) (BIN SYM_AND (ATOM [80]) (ATOM [81]))) []
     = [[40, 40, 80, 32, 8743, 32, 81, 41, 32, 8744, 32, 40, 80, 32, 8743, 32, 81, 41, 41],
        [40, 80, 32, 8743, 32, 81, 41]]"
proof (intro conjI)
  show "set (getSubExpressions t []) = toFullString ` {n \<in> subtrees t. \<not> isAtomNode n}"
    by (simp add: set_getSubExpressions)
  show "distinct (getSubExpressions t [])"
    by (simp add: distinct_getSubExpressions)
  show "getSubExpressions (parseToAST (tokenize [40, 80, 32, 8743, 32, 81, 41])) []
     = [[40, 80, 32, 8743, 32, 81, 41]]"
    unfolding tokenize_conjunction by (simp add: parse_eval setAdd_def)
  show "getSubExpressions
     (BIN SYM_OR (BIN SYM_AND (ATOM [80]) (ATOM [81])) (BIN SYM_AND (ATOM [80]) (ATOM [81]))) []
     = [[40, 40, 80, 32, 8743, 32, 81, 41, 32, 8744, 32, 40, 80, 32, 8743, 32, 81, 41, 41],
        [40, 80, 32, 8743, 32, 81, 41]]"
    by (simp add: setAdd_def sym_defs)
qed

section \<open>Properties of the reduction engine\<close>

lemma candidatesAt_interactable:
  assumes "i < length tokens"
  shows "candidatesAt tokens i =
     (if interactable tokens i
      then [\<lparr>cand_idx = i, cand_op = tokens ! i,
              cand_prec = (case PRECEDENCE (tokens ! i) of Some p \<Rightarrow> p | None \<Rightarrow> 0)\<rparr>]
      else [])"
  using assms
  by (auto simp: candidatesAt_def interactable_def elemAt_def Let_def sym_defs)

lemma interactable_lt: "interactable tokens i \<Longrightarrow> i < length tokens"
  by (auto simp: interactable_def elemAt_def split: option.splits if_splits)

lemma interactable_prec:
  "interactable tokens i \<Longrightarrow> \<exists>p. PRECEDENCE (tokens ! i) = Some p"
  by (auto simp: interactable_def elemAt_def PRECEDENCE_def Let_def split: option.splits if_splits)

lemma set_candidatesOf:
  "set (candidatesOf tokens) =
     (\<lambda>i. \<lparr>cand_idx = i, cand_op = tokens ! i,
        cand_prec = (case PRECEDENCE (tokens ! i) of Some p \<Rightarrow> p | None \<Rightarrow> 0)\<rparr>) `
      {i. interactable tokens i}"
proof -
  have "set (candidatesOf tokens) = (\<Union>i\<in>{0..<length tokens}. set (candidatesAt tokens i))"
    by (simp add: candidatesOf_def)
  also have "\<dots> = (\<Union>i\<in>{0..<length tokens}. if interactable tokens i
      then {\<lparr>cand_idx = i, cand_op = tokens ! i,
              cand_prec = (case PRECEDENCE (tokens ! i) of Some p \<Rightarrow> p | None \<Rightarrow> 0)\<rparr>}
      else {})"
    by (rule SUP_cong) (simp_all add: candidatesAt_interactable)
  also have "\<dots> = (\<lambda>i. \<lparr>cand_idx = i, cand_op = tokens ! i,
        cand_prec = (case PRECEDENCE (tokens ! i) of Some p \<Rightarrow> p | None \<Rightarrow> 0)\<rparr>) `
      {i. interactable tokens i}"
    using interactable_lt by (auto split: if_splits)
  finally show ?thesis .
qed

lemma candidate_ranks: "set (map cand_prec (candidatesOf tokens)) = reducibleRanks tokens"
proof -
  have "set (map cand_prec (candidatesOf tokens)) =
      (\<lambda>i. case PRECEDENCE (tokens ! i) of Some p \<Rightarrow> p | None \<Rightarrow> 0) ` {i. interactable tokens i}"
    unfolding set_map set_candidatesOf image_image by simp
  also have "\<dots> = reducibleRanks tokens"
  proof (intro set_eqI iffI)
    fix p assume "p \<in> (\<lambda>i. case PRECEDENCE (tokens ! i) of Some p \<Rightarrow> p | None \<Rightarrow> 0) `
        {i. interactable tokens i}"
    then obtain i where i: "interactable tokens i"
      "p = (case PRECEDENCE (tokens ! i) of Some p \<Rightarrow> p | None \<Rightarrow> 0)" by blast
    from interactable_prec [OF i(1)] i(2) have "PRECEDENCE (tokens ! i) = Some p" by auto
    moreover have "elemAt tokens (int i) = Some (tokens ! i)"
      using interactable_lt [OF i(1)] by (simp add: elemAt_def)
    ultimately show "p \<in> reducibleRanks tokens" using i(1) unfolding reducibleRanks_def by blast
  next
    fix p assume "p \<in> reducibleRanks tokens"
    then obtain i t where i: "interactable tokens i" "elemAt tokens (int i) = Some t"
      "PRECEDENCE t = Some p" unfolding reducibleRanks_def by blast
    have "t = tokens ! i" using i(2) by (auto simp: elemAt_def split: if_splits)
    then have "p = (case PRECEDENCE (tokens ! i) of Some p \<Rightarrow> p | None \<Rightarrow> 0)"
      using i(3) by simp
    then show "p \<in> (\<lambda>i. case PRECEDENCE (tokens ! i) of Some p \<Rightarrow> p | None \<Rightarrow> 0) `
        {i. interactable tokens i}" using i(1) by blast
  qed
  finally show ?thesis .
qed

lemma candidatesOf_nonempty: "interactable tokens i \<Longrightarrow> candidatesOf tokens \<noteq> []"
proof -
  assume "interactable tokens i"
  then have "set (candidatesOf tokens) \<noteq> {}" unfolding set_candidatesOf by blast
  then show ?thesis by auto
qed

lemma finite_reducibleRanks: "finite (reducibleRanks tokens)"
  unfolding candidate_ranks [symmetric] by simp

lemma handleInteraction_rejected:
  assumes "interactable tokens idx" "elemAt tokens (int idx) = Some token"
    "PRECEDENCE token = Some p" "p < Max (reducibleRanks tokens)"
  shows "handleInteraction idx tokens st = st\<lparr>msg := ORDER_MSG\<rparr>"
  using assms candidatesOf_nonempty [OF assms(1)]
  by (simp add: handleInteraction_def Let_def candidate_ranks [simplified])

lemma handleInteraction_accepted:
  assumes "interactable tokens idx" "elemAt tokens (int idx) = Some token"
    "PRECEDENCE token = Some p" "p = Max (reducibleRanks tokens)"
  shows "\<exists>newStr. handleInteraction idx tokens st = addToHistory newStr (st\<lparr>msg := []\<rparr>)"
  using assms candidatesOf_nonempty [OF assms(1)]
  by (auto simp: handleInteraction_def Let_def candidate_ranks [simplified])

lemma reducible_rank_le:
  assumes "interactable tokens idx" "elemAt tokens (int idx) = Some token"
    "PRECEDENCE token = Some p"
  shows "p \<le> Max (reducibleRanks tokens)"
proof -
  have "p \<in> reducibleRanks tokens" using assms unfolding reducibleRanks_def by blast
  then show ?thesis using finite_reducibleRanks by (rule Max_ge [rotated])
qed

lemmas engine_eval = getTokens_def trim_def replaceChar_def isSpace_def normalizeParens.simps
  matchParenLit_def candidatesOf_def candidatesAt_def elemAt_def slice_def sliceFrom_def
  evaluateOp_def evaluateNot_def isVal_def addToHistory_def handleInteraction_def
  interactable_def isSolved_def clickToken_def PRECEDENCE_def sym_defs Let_def

lemma example_tokens:
  "getTokens [49, 32, 8743, 32, 48, 32, 8744, 32, 49] = [LIT1, SYM_AND, LIT0, SYM_OR, LIT1]"
  by (simp add: engine_eval)

lemma example_rejected: "clickToken 3 exampleState = exampleState\<lparr>msg := ORDER_MSG\<rparr>"
  by (simp add: exampleState_def engine_eval)

lemma example_accepted:
  "map content (history (clickTokens [1, 1] exampleState)) =
     [[80, 32, 8743, 32, 81, 32, 8744, 32, 80], [49, 32, 8743, 32, 48, 32, 8744, 32, 49],
      [48, 32, 8744, 32, 49], [49]]"
  by (simp add: exampleState_def engine_eval)

lemma normalizeParens_fixed: "replaceParenLit (normalizeParens s) = normalizeParens s"
proof (induction s rule: normalizeParens.induct)
  case (1 clean)
  show ?case
  proof (cases "replaceParenLit clean = clean")
    case True
    then show ?thesis by (subst (1 2) normalizeParens.simps) simp
  next
    case False
    then have "normalizeParens clean = normalizeParens (replaceParenLit clean)"
      by (subst normalizeParens.simps) simp
    then show ?thesis using "1.IH" [OF refl] False by simp
  qed
qed

lemma fixed_no_match:
  "replaceParenLit s = s \<Longrightarrow> matchParenLit (drop p s) = None"
proof (induction s arbitrary: p rule: replaceParenLit.induct)
  case 1
  then show ?case by (simp add: matchParenLit_def)
next
  case (2 c cs)
  show ?case
  proof (cases "matchParenLit (c # cs)")
    case None
    then have "replaceParenLit cs = cs" using "2.prems" by simp
    then have "matchParenLit (drop q cs) = None" for q using "2.IH"(1) [OF None] by blast
    then show ?thesis using None by (cases p) simp_all
  next
    case (Some x)
    obtain d rest where x: "x = (d, rest)" by (cases x)
    have "length (replaceParenLit (c # cs)) \<le> 1 + length rest"
      using Some x length_replaceParenLit [of rest] by simp
    also have "\<dots> < length (c # cs)"
      using matchParenLit_length [of "c # cs" d rest] Some x by simp
    finally show ?thesis using "2.prems" by simp
  qed
qed

lemma handleInteraction_cases:
  "handleInteraction idx tokens st = st\<lparr>msg := []\<rparr> \<or>
   handleInteraction idx tokens st = st\<lparr>msg := ORDER_MSG\<rparr> \<or>
   (\<exists>newStr. handleInteraction idx tokens st = addToHistory newStr (st\<lparr>msg := []\<rparr>))"
  unfolding handleInteraction_def Let_def by (auto split: option.splits)

text \<open>
  Claim C4. The rank of a selected reducible token is at most the maximal rank of the
  reducible tokens. If it is lower, \<open>handleInteraction\<close> sets the advisory message and
  changes nothing else, so the history and with it the token sequence stay as they are;
  if it equals the maximum, the reduction fires and one entry is appended. For the tokens
  \<open>1 \<and> 0 \<or> 1\<close> the click on \<open>\<or>\<close> is rejected, the click on \<open>\<and>\<close> gives \<open>0 \<or> 1\<close>, and then
  the click on \<open>\<or>\<close> gives \<open>1\<close>.
\<close>

theorem strict_reduction_ordering:
  "(interactable tokens idx \<and> elemAt tokens (int idx) = Some token \<and> PRECEDENCE token = Some p
      \<longrightarrow>
      p \<le> Max (reducibleRanks tokens) \<and>
      (p < Max (reducibleRanks tokens) \<longrightarrow>
         handleInteraction idx tokens st = st\<lparr>msg := ORDER_MSG\<rparr>) \<and>
      (p = Max (reducibleRanks tokens) \<longrightarrow>
         (\<exists>newStr. handleInteraction idx tokens st = addToHistory newStr (st\<lparr>msg := []\<rparr>)))) \<and>
   getTokens [49, 32, 8743, 32, 48, 32, 8744, 32, 49] = [LIT1, SYM_AND, LIT0, SYM_OR, LIT1] \<and>
   clickToken 3 exampleState = exampleState\<lparr>msg := ORDER_MSG\<rparr> \<and>
   map content (history (clickTokens [1, 1] exampleState)) =
     [[80, 32, 8743, 32, 81, 32, 8744, 32, 80], [49, 32, 8743, 32, 48, 32, 8744, 32, 49],
      [48, 32, 8744, 32, 49], [49]]"
  using handleInteraction_rejected handleInteraction_accepted reducible_rank_le
    example_tokens example_rejected example_accepted by blast

theorem strict_reduction_ordering_witness:
  "handleInteraction 3 [LIT1, SYM_AND, LIT0, SYM_OR, LIT1] exampleState
     = exampleState\<lparr>msg := ORDER_MSG\<rparr> \<and>
   (\<exists>newStr. handleInteraction 1 [LIT1, SYM_AND, LIT0, SYM_OR, LIT1] exampleState
     = addToHistory newStr (exampleState\<lparr>msg := []\<rparr>))"
proof -
  let ?toks = "[LIT1, SYM_AND, LIT0, SYM_OR, LIT1]"
  have m: "Max (reducibleRanks ?toks) = 4"
    unfolding candidate_ranks [symmetric] by (simp add: engine_eval)
  have i: "interactable ?toks 3" "interactable ?toks 1"
    "elemAt ?toks (int 3) = Some SYM_OR" "elemAt ?toks (int 1) = Some SYM_AND"
    "PRECEDENCE SYM_OR = Some 3" "PRECEDENCE SYM_AND = Some 4"
    by (simp_all add: engine_eval)
  show ?thesis
    using strict_reduction_ordering [of ?toks 3 SYM_OR 3 exampleState]
      strict_reduction_ordering [of ?toks 1 SYM_AND 4 exampleState] i
    unfolding m by simp
qed

section \<open>Properties of the truth-table generator\<close>

lemma set_insertSorted: "set (insertSorted x ys) = insert x (set ys)"
  by (induction ys) auto

lemma distinct_insertSorted: "distinct ys \<Longrightarrow> x \<notin> set ys \<Longrightarrow> distinct (insertSorted x ys)"
  by (induction ys) (auto simp: set_insertSorted)

lemma distinct_sort_loop:
  "distinct (acc @ xs) \<Longrightarrow>
   distinct (foldl (\<lambda>sorted x. insertSorted x sorted) acc xs) \<and>
   set (foldl (\<lambda>sorted x. insertSorted x sorted) acc xs) = set acc \<union> set xs"
proof (induction xs arbitrary: acc)
  case Nil
  then show ?case by simp
next
  case (Cons x xs)
  have "distinct (insertSorted x acc @ xs)"
    using Cons.prems by (auto simp: set_insertSorted distinct_insertSorted)
  from Cons.IH [OF this] show ?case by (simp add: set_insertSorted)
qed

lemma distinct_sortStrings: "distinct xs \<Longrightarrow> distinct (sortStrings xs)"
  unfolding sortStrings_def using distinct_sort_loop [of "[]" xs] by simp

lemma distinct_found_loop:
  "distinct acc \<Longrightarrow>
   distinct (foldl (\<lambda>found v. let upper = asciiUpper v in
                 if upper \<noteq> LITT \<and> upper \<noteq> LITF then setAdd upper found else found) acc vs)"
  by (induction vs arbitrary: acc) (simp_all add: Let_def distinct_setAdd)

lemma distinct_parseVars: "distinct (parseVars str)"
  unfolding parseVars_def by (rule distinct_sortStrings) (simp add: distinct_found_loop)

lemma rowsLoop_unfold:
  "rowsLoop vars subs (int m - 1) acc =
     acc @ map (\<lambda>k. makeRow vars subs (int m - 1 - int k)) [0..<m]"
proof (induction m arbitrary: acc)
  case 0
  show ?case by (subst rowsLoop.simps) simp
next
  case (Suc m)
  have "rowsLoop vars subs (int (Suc m) - 1) acc =
      rowsLoop vars subs (int m - 1) (acc @ [makeRow vars subs (int m)])"
    by (subst rowsLoop.simps) simp
  also have "\<dots> = (acc @ [makeRow vars subs (int m)])
      @ map (\<lambda>k. makeRow vars subs (int m - 1 - int k)) [0..<m]"
    by (rule Suc.IH)
  also have "\<dots> = acc @ map (\<lambda>k. makeRow vars subs (int (Suc m) - 1 - int k)) [0..<Suc m]"
  proof -
    have "map (\<lambda>k. makeRow vars subs (int (Suc m) - 1 - int k)) [0..<Suc m] =
        makeRow vars subs (int m) # map (\<lambda>k. makeRow vars subs (int m - 1 - int k)) [0..<m]"
      by (simp add: upt_conv_Cons map_Suc_upt [symmetric] algebra_simps del: upt_Suc)
    then show ?thesis by simp
  qed
  finally show ?case .
qed

lemma rowsLoop_negative: "i < 0 \<Longrightarrow> rowsLoop vars subs i acc = acc"
  by (subst rowsLoop.simps) simp

lemma inputs_loop:
  "distinct vars \<Longrightarrow> k \<le> length vars \<Longrightarrow> idx < k \<Longrightarrow>
   foldl (\<lambda>inputs j. inputs(vars ! j \<mapsto> f j)) Map.empty [0..<k] (vars ! idx) = Some (f idx)"
proof (induction k)
  case 0
  then show ?case by simp
next
  case (Suc k)
  show ?case
  proof (cases "idx = k")
    case True
    then show ?thesis by simp
  next
    case False
    then have "idx < k" using Suc.prems by simp
    moreover have "vars ! idx \<noteq> vars ! k"
      using Suc.prems False by (simp add: nth_eq_iff_index_eq)
    ultimately show ?thesis using Suc by simp
  qed
qed

lemma rowInputs_nth:
  "distinct vars \<Longrightarrow> idx < length vars \<Longrightarrow>
   rowInputs vars i (vars ! idx) =
     Some (if andOne32 (shiftRight32 i (length vars - 1 - idx)) \<noteq> 0 then 1 else 0)"
  unfolding rowInputs_def Let_def
  by (rule inputs_loop [where f = "\<lambda>j. if andOne32 (shiftRight32 i (length vars - 1 - j)) \<noteq> 0
       then 1 else 0"]) simp_all

lemma toInt32_id: "- (2 ^ 31) \<le> x \<Longrightarrow> x < 2 ^ 31 \<Longrightarrow> toInt32 x = x"
  unfolding toInt32_def by (simp add: mod_pos_pos_trivial)

lemma toInt32_nonneg: "0 \<le> x \<Longrightarrow> x < 2 ^ 31 \<Longrightarrow> toInt32 x = x"
  by (rule toInt32_id) simp_all

lemma shiftLeft32_small: "n \<le> 30 \<Longrightarrow> shiftLeft32 1 n = 2 ^ n"
proof -
  assume n: "n \<le> 30"
  have "(2::int) ^ n \<le> 2 ^ 30" using n by (intro power_increasing) auto
  then have "(2::int) ^ n < 2 ^ 31" by (rule le_less_trans) simp
  then have "toInt32 (2 ^ n) = 2 ^ n" by (intro toInt32_nonneg) simp_all
  moreover have "toInt32 1 = 1" by (simp add: toInt32_def)
  ultimately show ?thesis using n by (simp add: shiftLeft32_def)
qed

lemma bit_of_row:
  assumes "0 \<le> i" "i < 2 ^ 31" "s < 32"
  shows "andOne32 (shiftRight32 i s) \<noteq> 0 \<longleftrightarrow> bit i s"
proof -
  have i: "toInt32 i = i" using assms by (intro toInt32_nonneg)
  have "0 \<le> i div 2 ^ s" using assms(1) by (simp add: pos_imp_zdiv_nonneg_iff)
  moreover have "i div 2 ^ s \<le> i" using zdiv_mono2 [of i 1 "2 ^ s"] assms(1) by simp
  ultimately have "toInt32 (i div 2 ^ s) = i div 2 ^ s"
    using assms(2) by (intro toInt32_nonneg) auto
  then show ?thesis using assms(3) i
    by (simp add: andOne32_def shiftRight32_def bit_iff_odd odd_iff_mod_2_eq_one)
qed

lemma all_ones_bit: "s < n \<Longrightarrow> bit ((2::int) ^ n - 1) s"
  using bit_mask_iff [of n s, where ?'a = int] by (simp add: mask_eq_exp_minus_1)

lemma generateTable_rows:
  "parseVars expr \<noteq> [] \<Longrightarrow>
   rows (generateTable expr st) =
      rowsLoop (parseVars expr) (subExprs (generateTable expr st))
        (shiftLeft32 1 (length (parseVars expr)) - 1) []"
  by (simp add: generateTable_def Let_def)

text \<open>
  Claim C5, as amended. The variables of the table are the distinct names that \<open>parseVars\<close>
  extracts, sorted. With no variable the table has no row. With \<open>n\<close> variables,
  \<open>1 \<le> n \<le> 30\<close>, the table has exactly \<open>2 ^ n\<close> rows; row \<open>k\<close> is the row of the
  assignment integer \<open>i = 2 ^ n - 1 - k\<close>, and it gives the variable at index \<open>idx\<close> the bit
  of \<open>i\<close> at position \<open>n - 1 - idx\<close>; the first row gives every variable 1 and the last row
  gives every variable 0.
\<close>

theorem truth_table_rows:
  "variables (generateTable expr st) = parseVars expr \<and> distinct (parseVars expr) \<and>
   (length (parseVars expr) = 0 \<longrightarrow> rows (generateTable expr st) = []) \<and>
   (1 \<le> length (parseVars expr) \<and> length (parseVars expr) \<le> 30 \<longrightarrow>
      length (rows (generateTable expr st)) = 2 ^ length (parseVars expr) \<and>
      (\<forall>k < 2 ^ length (parseVars expr). \<forall>idx < length (parseVars expr).
         inputs (rows (generateTable expr st) ! k) (parseVars expr ! idx) =
           Some (if bit (2 ^ length (parseVars expr) - 1 - int k)
                        (length (parseVars expr) - 1 - idx) then 1 else 0)) \<and>
      (\<forall>idx < length (parseVars expr).
         inputs (hd (rows (generateTable expr st))) (parseVars expr ! idx) = Some 1) \<and>
      (\<forall>idx < length (parseVars expr).
         inputs (last (rows (generateTable expr st))) (parseVars expr ! idx) = Some 0))"
proof (intro conjI impI)
  let ?vars = "parseVars expr"
  let ?n = "length ?vars"
  let ?tbl = "rows (generateTable expr st)"
  show "variables (generateTable expr st) = ?vars"
    by (simp add: generateTable_def Let_def)
  show d: "distinct ?vars" by (rule distinct_parseVars)
  show "?tbl = []" if "?n = 0"
    using that by (simp add: generateTable_def Let_def)
  assume n: "1 \<le> ?n \<and> ?n \<le> 30"
  define subs where "subs = subExprs (generateTable expr st)"
  have "?vars \<noteq> []" using n by auto
  then have tbl0: "?tbl = rowsLoop ?vars subs (shiftLeft32 1 ?n - 1) []"
    unfolding subs_def by (rule generateTable_rows)
  have cnt: "shiftLeft32 1 ?n - 1 = int (2 ^ ?n) - 1"
    using n by (simp add: shiftLeft32_small)
  have tbl: "?tbl = map (\<lambda>k. makeRow ?vars subs (int (2 ^ ?n) - 1 - int k)) [0..<2 ^ ?n]"
    unfolding tbl0 cnt rowsLoop_unfold by simp
  show len: "length ?tbl = 2 ^ ?n" unfolding tbl by simp
  have small: "(2::int) ^ ?n < 2 ^ 31"
  proof -
    have "(2::int) ^ ?n \<le> 2 ^ 30" using n by (intro power_increasing) auto
    then show ?thesis by (rule le_less_trans) simp
  qed
  have row: "inputs (?tbl ! k) (?vars ! idx) =
      Some (if bit (2 ^ ?n - 1 - int k) (?n - 1 - idx) then 1 else 0)"
    if k: "k < 2 ^ ?n" and idx: "idx < ?n" for k idx
  proof -
    have "?tbl ! k = makeRow ?vars subs (2 ^ ?n - 1 - int k)"
      unfolding tbl using k by simp
    then have "inputs (?tbl ! k) (?vars ! idx) =
        Some (if andOne32 (shiftRight32 (2 ^ ?n - 1 - int k) (?n - 1 - idx)) \<noteq> 0 then 1 else 0)"
      using rowInputs_nth [OF d idx] by (simp add: makeRow_def)
    moreover have "0 \<le> (2::int) ^ ?n - 1 - int k"
    proof -
      have "int k < 2 ^ ?n" using k by (metis of_nat_less_iff of_nat_numeral of_nat_power)
      then show ?thesis by simp
    qed
    moreover have "(2::int) ^ ?n - 1 - int k < 2 ^ 31" using small by simp
    moreover have "?n - 1 - idx < 32" using n by linarith
    ultimately show ?thesis using bit_of_row by simp
  qed
  then show "\<forall>k < 2 ^ ?n. \<forall>idx < ?n. inputs (?tbl ! k) (?vars ! idx) =
      Some (if bit (2 ^ ?n - 1 - int k) (?n - 1 - idx) then 1 else 0)" by blast
  have ne: "?tbl \<noteq> []" using len by auto
  show "\<forall>idx < ?n. inputs (hd ?tbl) (?vars ! idx) = Some 1"
  proof (intro allI impI)
    fix idx assume idx: "idx < ?n"
    have "hd ?tbl = ?tbl ! 0" using ne by (simp add: hd_conv_nth)
    moreover have "bit ((2::int) ^ ?n - 1) (?n - 1 - idx)"
      using idx by (intro all_ones_bit) simp
    ultimately show "inputs (hd ?tbl) (?vars ! idx) = Some 1"
      using row [of 0 idx] idx by simp
  qed
  show "\<forall>idx < ?n. inputs (last ?tbl) (?vars ! idx) = Some 0"
  proof (intro allI impI)
    fix idx assume idx: "idx < ?n"
    have "last ?tbl = ?tbl ! (2 ^ ?n - 1)" using ne len by (simp add: last_conv_nth)
    moreover have "(2::int) ^ ?n - 1 - int (2 ^ ?n - 1) = 0"
      by (simp add: of_nat_diff)
    ultimately show "inputs (last ?tbl) (?vars ! idx) = Some 0"
      using row [of "2 ^ ?n - 1" idx] idx by simp
  qed
qed

lemma parseVars_manyVariables:
  "parseVars manyVariables =
     [[65], [65, 65], [65, 66], [65, 67], [65, 68], [65, 69], [65, 71], [65, 72], [66], [67], [68], [69], [71], [72], [73], [74], [75], [76], [77], [78], [79], [80], [81], [82], [83], [85], [86], [87], [88], [89], [90]]"
  by (simp add: manyVariables_def parseVars_def sortStrings_def isAsciiLetter_def
      asciiUpper_def setAdd_def sym_defs)

text \<open>
  The claim as stated fails from 31 variables on, because the row count \<open>1 << n\<close> is a
  32-bit integer: for 31 variables it is negative and the table has no row.
\<close>

theorem truth_table_rows_counterexample:
  "length (parseVars manyVariables) = 31 \<and> rows (generateTable manyVariables emptyTable) = []"
proof -
  have n: "length (parseVars manyVariables) = 31"
    unfolding parseVars_manyVariables by simp
  have "parseVars manyVariables \<noteq> []" using n by auto
  then have "rows (generateTable manyVariables emptyTable) =
      rowsLoop (parseVars manyVariables) (subExprs (generateTable manyVariables emptyTable))
        (shiftLeft32 1 (length (parseVars manyVariables)) - 1) []"
    by (rule generateTable_rows)
  moreover have "shiftLeft32 1 31 - 1 < 0"
    by (simp add: shiftLeft32_def toInt32_def)
  ultimately show ?thesis using n rowsLoop_negative by simp
qed

theorem truth_table_rows_witness:
  "parseVars [40, 81, 32, 8744, 32, 80, 41] = [[80], [81]] \<and>
   length (rows (generateTable [40, 81, 32, 8744, 32, 80, 41] emptyTable)) = 4 \<and>
   inputs (hd (rows (generateTable [40, 81, 32, 8744, 32, 80, 41] emptyTable))) [80] = Some 1 \<and>
   inputs (hd (rows (generateTable [40, 81, 32, 8744, 32, 80, 41] emptyTable))) [81] = Some 1 \<and>
   inputs (rows (generateTable [40, 81, 32, 8744, 32, 80, 41] emptyTable) ! 1) [80] = Some 1 \<and>
   inputs (rows (generateTable [40, 81, 32, 8744, 32, 80, 41] emptyTable) ! 1) [81] = Some 0 \<and>
   inputs (last (rows (generateTable [40, 81, 32, 8744, 32, 80, 41] emptyTable))) [80] = Some 0 \<and>
   inputs (last (rows (generateTable [40, 81, 32, 8744, 32, 80, 41] emptyTable))) [81] = Some 0"
proof -
  let ?e = "[40, 81, 32, 8744, 32, 80, 41]"
  have pv: "parseVars ?e = [[80], [81]]"
    by (simp add: parseVars_def sortStrings_def isAsciiLetter_def asciiUpper_def setAdd_def
        sym_defs)
  note t = truth_table_rows [of ?e emptyTable, unfolded pv]
  from t have len: "length (rows (generateTable ?e emptyTable)) = 4" by simp
  from t have row: "\<forall>k<4. \<forall>idx<2. inputs (rows (generateTable ?e emptyTable) ! k) ([[80], [81]] ! idx)
      = Some (if bit (3 - int k) (1 - idx) then 1 else 0)" by simp
  from t have first: "\<forall>idx<2. inputs (hd (rows (generateTable ?e emptyTable))) ([[80], [81]] ! idx)
      = Some 1" by simp
  from t have final: "\<forall>idx<2. inputs (last (rows (generateTable ?e emptyTable))) ([[80], [81]] ! idx)
      = Some 0" by simp
  have b: "bit (2::int) 1" "\<not> bit (2::int) 0" by (simp_all add: bit_iff_odd)
  from row [rule_format, of 1 0] b
  have r10: "inputs (rows (generateTable ?e emptyTable) ! 1) [80] = Some 1" by simp
  from row [rule_format, of 1 1] b
  have r11: "inputs (rows (generateTable ?e emptyTable) ! 1) [81] = Some 0" by simp
  from first have f: "inputs (hd (rows (generateTable ?e emptyTable))) [80] = Some 1"
    "inputs (hd (rows (generateTable ?e emptyTable))) [81] = Some 1"
    by (auto dest: spec [of _ 0] spec [of _ "Suc 0"])
  from final have l: "inputs (last (rows (generateTable ?e emptyTable))) [80] = Some 0"
    "inputs (last (rows (generateTable ?e emptyTable))) [81] = Some 0"
    by (auto dest: spec [of _ 0] spec [of _ "Suc 0"])
  show ?thesis using pv len r10 r11 f l by simp
qed

section \<open>Termination of reduction sessions\<close>

lemma isSpace_simps [simp]: "isSpace 32" "\<not> isSpace 40" "\<not> isSpace 41" "\<not> isSpace 48"
  "\<not> isSpace 49"
  by (simp_all add: isSpace_def)

lemma flushTok_Nil [simp]: "flushTok [] = []"
  by (simp add: flushTok_def)

lemma flushTok_nonempty: "cur \<noteq> [] \<Longrightarrow> flushTok cur = [cur]"
  by (simp add: flushTok_def)

lemma wordsOf_leading: "list_all isSpace sp \<Longrightarrow> wordsOf [] (sp @ u) = wordsOf [] u"
  by (induction sp) simp_all

lemma wordsOf_all_spaces: "list_all isSpace sp \<Longrightarrow> wordsOf cur sp = flushTok cur"
  using wordsOf_leading [of _ "[]"] by (cases sp) simp_all

lemma wordsOf_trailing: "list_all isSpace sp \<Longrightarrow> wordsOf cur (u @ sp) = wordsOf cur u"
  by (induction u arbitrary: cur) (simp_all add: wordsOf_all_spaces)

lemma lexer_leading: "list_all isSpace sp \<Longrightarrow> lexer [] (sp @ u) = lexer [] u"
  by (induction sp) simp_all

lemma lexer_all_spaces: "list_all isSpace sp \<Longrightarrow> lexer cur sp = flushTok cur"
  using lexer_leading [of _ "[]"] by (cases sp) simp_all

lemma lexer_trailing: "list_all isSpace sp \<Longrightarrow> lexer cur (u @ sp) = lexer cur u"
  by (induction u arbitrary: cur) (simp_all add: lexer_all_spaces)

lemma wordsOf_nonempty: "cur \<noteq> [] \<Longrightarrow> wordsOf cur u \<noteq> []"
  by (induction u arbitrary: cur) (simp_all add: flushTok_def)

lemma trim_decompose:
  "\<exists>sp1 sp2. list_all isSpace sp1 \<and> list_all isSpace sp2 \<and> u = sp1 @ trim u @ sp2"
proof -
  let ?v = "dropWhile isSpace u"
  let ?sp1 = "takeWhile isSpace u"
  let ?sp2 = "rev (takeWhile isSpace (rev ?v))"
  have "rev ?v = takeWhile isSpace (rev ?v) @ dropWhile isSpace (rev ?v)" by simp
  then have "?v = rev (dropWhile isSpace (rev ?v)) @ ?sp2"
    by (metis rev_append rev_rev_ident)
  then have "u = ?sp1 @ trim u @ ?sp2"
    unfolding trim_def by (metis takeWhile_dropWhile_id)
  moreover have "list_all isSpace ?sp1"
    by (simp add: list_all_iff) (meson set_takeWhileD)
  moreover have "list_all isSpace ?sp2"
    by (simp add: list_all_iff) (meson set_takeWhileD)
  ultimately show ?thesis by blast
qed

lemma trim_ends:
  assumes "trim u \<noteq> []"
  shows "\<not> isSpace (hd (trim u)) \<and> \<not> isSpace (last (trim u))"
proof -
  let ?v = "dropWhile isSpace u"
  let ?w = "dropWhile isSpace (rev ?v)"
  have w: "?w \<noteq> []" using assms by (simp add: trim_def)
  then have l: "\<not> isSpace (hd ?w)" by (rule hd_dropWhile)
  have last: "last (trim u) = hd ?w" using w by (simp add: trim_def last_rev)
  have v: "?v \<noteq> []"
  proof
    assume "?v = []"
    then have "?w = []" by (simp only: rev.simps dropWhile.simps)
    with w show False by simp
  qed
  then have hv: "\<not> isSpace (hd ?v)" by (rule hd_dropWhile)
  obtain sp2 where "?v = trim u @ sp2"
    unfolding trim_def
    by (metis rev_append rev_rev_ident takeWhile_dropWhile_id)
  then have "hd (trim u) = hd ?v" using assms by (metis hd_append2)
  then show ?thesis using hv l last by simp
qed

lemma wordsOf_trim: "wordsOf [] (trim u) = wordsOf [] u"
proof -
  obtain sp1 sp2 where s: "list_all isSpace sp1" "list_all isSpace sp2" "u = sp1 @ trim u @ sp2"
    using trim_decompose by blast
  have "wordsOf [] u = wordsOf [] (sp1 @ (trim u @ sp2))" using s(3) by simp
  also have "\<dots> = wordsOf [] (trim u @ sp2)" using s(1) by (rule wordsOf_leading)
  also have "\<dots> = wordsOf [] (trim u)" using s(2) by (rule wordsOf_trailing)
  finally show ?thesis by simp
qed

lemma lexer_trim: "lexer [] (trim u) = lexer [] u"
proof -
  obtain sp1 sp2 where s: "list_all isSpace sp1" "list_all isSpace sp2" "u = sp1 @ trim u @ sp2"
    using trim_decompose by blast
  have "lexer [] u = lexer [] (sp1 @ (trim u @ sp2))" using s(3) by simp
  also have "\<dots> = lexer [] (trim u @ sp2)" using s(1) by (rule lexer_leading)
  also have "\<dots> = lexer [] (trim u)" using s(2) by (rule lexer_trailing)
  finally show ?thesis by simp
qed

lemma wordsOf_dropWhile: "wordsOf [] (dropWhile isSpace u) = wordsOf [] u"
  by (induction u) simp_all

lemma lexer_dropWhile: "lexer [] (dropWhile isSpace u) = lexer [] u"
  by (induction u) simp_all

lemma splitSpaces_words:
  "u = [] \<or> \<not> isSpace (last u) \<Longrightarrow> cur \<noteq> [] \<or> (u \<noteq> [] \<and> \<not> isSpace (hd u)) \<Longrightarrow>
   splitSpaces cur u = wordsOf cur u"
proof (induction cur u rule: splitSpaces.induct)
  case (1 cur)
  then show ?case by (simp add: flushTok_def)
next
  case (2 cur c cs)
  show ?case
  proof (cases "isSpace c")
    case True
    let ?d = "dropWhile isSpace cs"
    have cur: "cur \<noteq> []" using "2.prems"(2) True by simp
    have cs: "cs \<noteq> []" "\<not> isSpace (last cs)" using "2.prems"(1) True by (auto split: if_splits)
    have d: "?d \<noteq> []" using cs by (metis dropWhile_eq_Nil_conv last_in_set)
    then have hd: "\<not> isSpace (hd ?d)" by (rule hd_dropWhile)
    have "last ?d = last cs" using d by (metis last_appendR takeWhile_dropWhile_id)
    then have "splitSpaces [] ?d = wordsOf [] ?d"
      using "2.IH"(1) [OF True] d hd cs(2) by simp
    then show ?thesis using True cur by (simp add: wordsOf_dropWhile flushTok_def)
  next
    case False
    have "cs = [] \<or> \<not> isSpace (last cs)" using "2.prems"(1) by (auto split: if_splits)
    then have "splitSpaces (cur @ [c]) cs = wordsOf (cur @ [c]) cs"
      using "2.IH"(2) [OF False] by simp
    then show ?thesis using False by simp
  qed
qed

lemma pad_concat:
  "replaceChar 41 [32, 41, 32] (replaceChar 40 [32, 40, 32] s) = concat (map padChar s)"
  by (induction s) (simp_all add: replaceChar_def padChar_def)

lemma wordsOf_pad: "wordsOf cur (concat (map padChar s)) = lexer cur s"
  by (induction s arbitrary: cur) (simp_all add: padChar_def flushTok_def)

lemma getTokens_lexer:
  assumes "s \<noteq> []"
  shows "getTokens s = (if lexer [] s = [] then [[]] else lexer [] s)"
proof -
  let ?u = "concat (map padChar s)"
  have g: "getTokens s = splitSpaces [] (trim ?u)"
    using assms by (simp add: getTokens_def pad_concat)
  have l: "lexer [] s = wordsOf [] (trim ?u)" by (simp add: wordsOf_trim wordsOf_pad)
  show ?thesis
  proof (cases "trim ?u = []")
    case True
    then show ?thesis unfolding g l by simp
  next
    case False
    have e: "\<not> isSpace (hd (trim ?u))" "\<not> isSpace (last (trim ?u))"
      using trim_ends [OF False] by simp_all
    have "splitSpaces [] (trim ?u) = wordsOf [] (trim ?u)"
      using False e by (intro splitSpaces_words) simp_all
    moreover have "wordsOf [] (trim ?u) \<noteq> []"
    proof -
      obtain c cs where c: "trim ?u = c # cs" using False by (cases "trim ?u") auto
      then have "wordsOf [] (trim ?u) = wordsOf [c] cs" using e(1) by simp
      then show ?thesis using wordsOf_nonempty [of "[c]" cs] by simp
    qed
    ultimately show ?thesis unfolding g l by simp
  qed
qed

lemma lexer_shape:
  "plainText cur \<Longrightarrow> t \<in> set (lexer cur s) \<Longrightarrow> tokenShape t"
proof (induction s arbitrary: cur)
  case Nil
  then show ?case by (auto simp: flushTok_def tokenShape_def split: if_splits)
next
  case (Cons c cs)
  have e: "plainText []" by (simp add: plainText_def)
  have f: "t \<in> set (flushTok cur) \<Longrightarrow> tokenShape t"
    using Cons.prems(1) by (auto simp: flushTok_def tokenShape_def split: if_splits)
  have p: "tokenShape [40]" "tokenShape [41]" by (simp_all add: tokenShape_def)
  consider (sp) "isSpace c" | (par) "\<not> isSpace c" "c = 40 \<or> c = 41"
    | (oth) "\<not> isSpace c" "c \<noteq> 40" "c \<noteq> 41" by blast
  then show ?case
  proof cases
    case sp
    then show ?thesis using Cons.prems(2) Cons.IH [OF e] f by auto
  next
    case par
    then show ?thesis using Cons.prems(2) Cons.IH [OF e] f p by auto
  next
    case oth
    then have "plainText (cur @ [c])" using Cons.prems(1) by (simp add: plainText_def)
    then show ?thesis using Cons.prems(2) Cons.IH oth by auto
  qed
qed

lemma getTokens_shape:
  "t \<in> set (getTokens s) \<Longrightarrow> getTokens s \<noteq> [[]] \<Longrightarrow> tokenShape t"
proof (cases "s = []")
  case True
  assume "t \<in> set (getTokens s)"
  then show ?thesis using True by (simp add: getTokens_def)
next
  case False
  assume a: "t \<in> set (getTokens s)" "getTokens s \<noteq> [[]]"
  then have "t \<in> set (lexer [] s)" using getTokens_lexer [OF False] by (auto split: if_splits)
  then show ?thesis by (rule lexer_shape [rotated]) (simp add: plainText_def)
qed

lemma lexer_append_space: "lexer cur (a @ 32 # b) = lexer cur a @ lexer [] b"
  by (induction a arbitrary: cur) simp_all

lemma lexer_plain:
  "plainText t \<Longrightarrow> lexer cur t = flushTok (cur @ t)"
  by (induction t arbitrary: cur) (simp_all add: plainText_def)

lemma lexer_token: "tokenShape t \<Longrightarrow> lexer [] t = [t]"
  unfolding tokenShape_def using lexer_plain [of t "[]"]
  by (auto simp: flushTok_def)

lemma lexer_join: "list_all tokenShape ts \<Longrightarrow> lexer [] (join ts) = ts"
proof (induction ts rule: join.induct)
  case 1
  then show ?case by simp
next
  case (2 t)
  then show ?case by (simp add: lexer_token)
next
  case (3 t v va)
  have "lexer [] (join (t # v # va)) = lexer [] t @ lexer [] (join (v # va))"
    using lexer_append_space [of "[]" t "join (v # va)"] by simp
  then show ?case using 3 by (simp add: lexer_token)
qed

lemma lexer_length_nonempty:
  "cur1 \<noteq> [] \<Longrightarrow> cur2 \<noteq> [] \<Longrightarrow> length (lexer cur1 s) = length (lexer cur2 s)"
proof (induction s arbitrary: cur1 cur2)
  case Nil
  then show ?case by (simp add: flushTok_def)
next
  case (Cons c cs)
  have "length (lexer (cur1 @ [c]) cs) = length (lexer (cur2 @ [c]) cs)"
    by (rule Cons.IH) simp_all
  then show ?case using Cons.prems by (simp add: flushTok_def)
qed

lemma lexer_length_cur: "length (lexer cur s) \<le> Suc (length (lexer [] s))"
proof (cases s)
  case Nil
  then show ?thesis by (simp add: flushTok_def)
next
  case (Cons c cs)
  have "length (lexer (cur @ [c]) cs) = length (lexer [c] cs)"
    by (rule lexer_length_nonempty) simp_all
  then show ?thesis using Cons by (simp add: flushTok_def)
qed

lemma lexer_match:
  assumes "matchParenLit s = Some (d, rest)"
  shows "lexer cur s = flushTok cur @ [[40], [d], [41]] @ lexer [] rest"
proof -
  from assms obtain r r2 where s: "s = 40 # r" and r: "dropWhile isSpace r = d # r2"
    and d: "d = 48 \<or> d = 49" and r2: "dropWhile isSpace r2 = 41 # rest"
    unfolding matchParenLit_Some by blast
  have nd: "\<not> isSpace d" "d \<noteq> 40" "d \<noteq> 41" using d by auto
  have "lexer [] r = lexer [] (d # r2)" using lexer_dropWhile [of r] r by simp
  also have "\<dots> = lexer [d] r2" using nd by simp
  also have "\<dots> = [[d], [41]] @ lexer [] rest"
  proof (cases r2)
    case Nil
    then show ?thesis using r2 by simp
  next
    case (Cons x xs)
    show ?thesis
    proof (cases "isSpace x")
      case True
      have "lexer [d] r2 = [d] # lexer [] xs" using Cons True by (simp add: flushTok_def)
      also have "lexer [] xs = lexer [] (dropWhile isSpace r2)"
        using Cons True lexer_dropWhile [of xs] by simp
      also have "\<dots> = [41] # lexer [] rest" using r2 by simp
      finally show ?thesis by simp
    next
      case False
      then have "r2 = 41 # rest" using r2 Cons by simp
      then show ?thesis by (simp add: flushTok_def)
    qed
  qed
  finally show ?thesis using s by simp
qed

lemma lexer_replaceParenLit:
  "length (lexer cur (replaceParenLit s)) \<le> length (lexer cur s)"
proof (induction s arbitrary: cur rule: replaceParenLit.induct)
  case 1
  then show ?case by simp
next
  case (2 c cs)
  show ?case
  proof (cases "matchParenLit (c # cs)")
    case None
    then have r: "replaceParenLit (c # cs) = c # replaceParenLit cs" by simp
    show ?thesis unfolding r using "2.IH"(1) [OF None] by simp
  next
    case (Some x)
    obtain d rest where x: "x = (d, rest)" by (cases x)
    have m: "matchParenLit (c # cs) = Some (d, rest)" using Some x by simp
    then have d: "d = 48 \<or> d = 49" unfolding matchParenLit_Some by blast
    have r: "replaceParenLit (c # cs) = d # replaceParenLit rest" using m by simp
    have "lexer cur (d # replaceParenLit rest) = lexer (cur @ [d]) (replaceParenLit rest)"
      using d by auto
    moreover have "length (lexer (cur @ [d]) (replaceParenLit rest))
        \<le> length (lexer (cur @ [d]) rest)"
      by (rule "2.IH"(2) [OF Some x [symmetric]])
    moreover have "length (lexer (cur @ [d]) rest) \<le> Suc (length (lexer [] rest))"
      by (rule lexer_length_cur)
    ultimately show ?thesis unfolding r lexer_match [OF m] by simp
  qed
qed

lemma lexer_normalizeParens:
  "length (lexer [] (normalizeParens s)) \<le> length (lexer [] s)"
proof (induction s rule: normalizeParens.induct)
  case (1 clean)
  show ?case
  proof (cases "replaceParenLit clean = clean")
    case True
    then show ?thesis by (subst normalizeParens.simps) simp
  next
    case False
    then have "normalizeParens clean = normalizeParens (replaceParenLit clean)"
      by (subst normalizeParens.simps) simp
    then show ?thesis
      using "1.IH" [OF refl] False lexer_replaceParenLit [of "[]" clean] by simp
  qed
qed

lemma getTokens_length: "length (getTokens s) \<le> max 1 (length (lexer [] s))"
proof (cases "s = []")
  case True
  then show ?thesis by (simp add: getTokens_def)
next
  case False
  show ?thesis unfolding getTokens_lexer [OF False] by simp
qed

lemma slice_take: "slice xs 0 (int k) = take k xs"
  by (simp add: slice_def Let_def min_def)

lemma sliceFrom_drop: "sliceFrom xs (int k) = drop k xs"
  by (simp add: sliceFrom_def slice_def Let_def min_def)

lemma sliceFrom_drop2:
  "sliceFrom xs (int k + 2) = drop (k + 2) xs" "sliceFrom xs (2 + int k) = drop (k + 2) xs"
  using sliceFrom_drop [of xs "k + 2"] by (simp_all add: add.commute)

lemma slice_take_pred: "1 \<le> k \<Longrightarrow> slice xs 0 (int k - 1) = take (k - 1) xs"
  using slice_take [of xs "k - 1"] by (simp add: of_nat_diff)

lemma interactable_cases:
  assumes "interactable tokens idx"
  shows "(tokens ! idx = SYM_NOT \<and> idx + 2 \<le> length tokens) \<or>
         (tokens ! idx \<noteq> SYM_NOT \<and> 1 \<le> idx \<and> idx + 2 \<le> length tokens)"
  using assms
  by (auto simp: interactable_def elemAt_def isVal_def Let_def split: if_splits)

lemma evaluateNot_val: "evaluateNot x = LIT0 \<or> evaluateNot x = LIT1"
  by (simp add: evaluateNot_def)

lemma evaluateOp_val: "evaluateOp l op r = LIT0 \<or> evaluateOp l op r = LIT1"
  by (simp add: evaluateOp_def Let_def)

lemma handleInteraction_splice:
  assumes "interactable tokens idx"
    and "history (handleInteraction idx tokens st) \<noteq> history st"
  shows "\<exists>pre v post.
     handleInteraction idx tokens st =
       addToHistory (trim (join pre @ [32] @ v @ [32] @ join post)) (st\<lparr>msg := []\<rparr>) \<and>
     (v = LIT0 \<or> v = LIT1) \<and> post = drop (idx + 2) tokens \<and>
     ((tokens ! idx = SYM_NOT \<and> pre = take idx tokens) \<or>
      (tokens ! idx \<noteq> SYM_NOT \<and> pre = take (idx - 1) tokens))"
proof -
  have lt: "idx < length tokens" using assms(1) by (rule interactable_lt)
  have tok: "elemAt tokens (int idx) = Some (tokens ! idx)" using lt by (simp add: elemAt_def)
  have c: "candidatesOf tokens \<noteq> []" using assms(1) by (rule candidatesOf_nonempty)
  have i2: "int idx + 2 = int (idx + 2)" by simp
  show ?thesis
  proof (cases "tokens ! idx = SYM_NOT")
    case True
    have "handleInteraction idx tokens st =
        addToHistory (trim (join (take idx tokens) @ [32] @ evaluateNot (elemAt tokens (int idx + 1))
          @ [32] @ join (drop (idx + 2) tokens))) (st\<lparr>msg := []\<rparr>)"
      using assms(2) c tok True unfolding handleInteraction_def Let_def
      by (auto simp: slice_take sliceFrom_drop2 split: if_splits option.splits)
    then show ?thesis using True evaluateNot_val by blast
  next
    case False
    have one: "1 \<le> idx" using interactable_cases [OF assms(1)] False by auto
    then have i1: "int idx - 1 = int (idx - 1)" by simp
    have "handleInteraction idx tokens st =
        addToHistory (trim (join (take (idx - 1) tokens) @ [32]
          @ evaluateOp (elemAt tokens (int idx - 1)) (Some (tokens ! idx)) (elemAt tokens (int idx + 1))
          @ [32] @ join (drop (idx + 2) tokens))) (st\<lparr>msg := []\<rparr>)"
      using assms(2) c tok False one unfolding handleInteraction_def Let_def
      by (auto simp: slice_take_pred sliceFrom_drop2 split: if_splits option.splits)
    then show ?thesis using False evaluateOp_val by blast
  qed
qed

lemma spliced_lexer:
  assumes "list_all tokenShape pre" "list_all tokenShape post" "v = LIT0 \<or> v = LIT1"
  shows "lexer [] (trim (join pre @ [32] @ v @ [32] @ join post)) = pre @ [v] @ post"
proof -
  let ?s = "join pre @ [32] @ v @ [32] @ join post"
  have v: "tokenShape v" using assms(3) by (auto simp: tokenShape_def plainText_def sym_defs)
  have "lexer [] ?s = lexer [] (join pre) @ lexer [] (v @ 32 # join post)"
    using lexer_append_space [of "[]" "join pre" "v @ 32 # join post"] by simp
  also have "\<dots> = lexer [] (join pre) @ lexer [] v @ lexer [] (join post)"
    using lexer_append_space [of "[]" v "join post"] by simp
  also have "\<dots> = pre @ [v] @ post"
    using assms(1,2) v by (simp add: lexer_join lexer_token)
  finally show ?thesis by (simp add: lexer_trim)
qed

lemma spliced_tokens:
  assumes "list_all tokenShape pre" "list_all tokenShape post" "v = LIT0 \<or> v = LIT1"
  shows "getTokens (trim (join pre @ [32] @ v @ [32] @ join post)) = pre @ [v] @ post"
proof -
  let ?s = "join pre @ [32] @ v @ [32] @ join post"
  have l: "lexer [] (trim ?s) = pre @ [v] @ post" using assms by (rule spliced_lexer)
  then have "trim ?s \<noteq> []" by auto
  then show ?thesis using l getTokens_lexer [of "trim ?s"] by simp
qed

lemma interactable_getTokens_shape:
  assumes "interactable (getTokens c) idx"
  shows "list_all tokenShape (getTokens c)"
proof -
  have "getTokens c \<noteq> [[]]"
  proof
    assume e: "getTokens c = [[]]"
    then have "idx = 0" using interactable_lt [OF assms] by simp
    then show False using assms e
      by (simp add: interactable_def elemAt_def Let_def sym_defs)
  qed
  then show ?thesis using getTokens_shape by (auto simp: list_all_iff)
qed

lemma list_all_take_drop:
  "list_all P xs \<Longrightarrow> list_all P (take n xs) \<and> list_all P (drop n xs)"
  by (auto simp: list_all_iff dest: in_set_takeD in_set_dropD)

lemma replaceParenLit_other: "c \<noteq> 40 \<Longrightarrow> replaceParenLit (c # cs) = c # replaceParenLit cs"
  by (simp add: matchParenLit_def)

declare replaceParenLit.simps(2) [simp del]

lemma replaceParenLit_none:
  "matchParenLit (c # cs) = None \<Longrightarrow> replaceParenLit (c # cs) = c # replaceParenLit cs"
  by (simp add: replaceParenLit.simps(2))

lemma replaceParenLit_some:
  "matchParenLit (c # cs) = Some (d, rest) \<Longrightarrow> replaceParenLit (c # cs) = d # replaceParenLit rest"
  by (simp add: replaceParenLit.simps(2))

lemma replaceParenLit_plain:
  "plainText t \<Longrightarrow> replaceParenLit (t @ rest) = t @ replaceParenLit rest"
proof (induction t)
  case Nil
  then show ?case by simp
next
  case (Cons c t)
  then have "c \<noteq> 40" "plainText t" by (simp_all add: plainText_def)
  then show ?case using Cons.IH replaceParenLit_other [of c "t @ rest"] by simp
qed

lemma tokenShape_cases:
  "tokenShape t \<Longrightarrow> t = LPAREN \<or> t = RPAREN \<or> (plainText t \<and> t \<noteq> [])"
  by (auto simp: tokenShape_def sym_defs)

lemma plainText_hd: "plainText t \<Longrightarrow> t \<noteq> [] \<Longrightarrow> \<not> isSpace (hd t) \<and> hd t \<noteq> 40 \<and> hd t \<noteq> 41"
  by (cases t) (simp_all add: plainText_def)

lemma join_Cons: "join (t # ts) = t @ (if ts = [] then [] else 32 # join ts)"
  by (cases ts) simp_all

lemma tokenShape_hd: "tokenShape t \<Longrightarrow> \<not> isSpace (hd t)"
  using tokenShape_cases [of t] plainText_hd [of t] by (auto simp: sym_defs)

lemma join_hd:
  "list_all tokenShape ts \<Longrightarrow> ts \<noteq> [] \<Longrightarrow> join ts \<noteq> [] \<and> hd (join ts) = hd (hd ts)"
  by (cases ts) (auto simp: join_Cons tokenShape_def)

lemma dropWhile_join:
  "list_all tokenShape ts \<Longrightarrow> dropWhile isSpace (join ts) = join ts"
proof (cases ts)
  case Nil
  then show ?thesis by simp
next
  case (Cons t ts')
  assume a: "list_all tokenShape ts"
  then have "join ts \<noteq> []" "\<not> isSpace (hd (join ts))"
    using Cons join_hd [of ts] tokenShape_hd [of t] by auto
  then show ?thesis by (cases "join ts") auto
qed

lemma unwrapOnce_shape: "list_all tokenShape ts \<Longrightarrow> list_all tokenShape (unwrapOnce ts)"
  by (induction ts rule: unwrapOnce.induct) auto

lemma unwrapOnce_Nil_iff: "unwrapOnce ts = [] \<longleftrightarrow> ts = []"
  by (induction ts rule: unwrapOnce.induct) auto


lemma replaceParenLit_token:
  assumes "tokenShape a" "a \<noteq> LPAREN"
  shows "replaceParenLit (a @ rest) = a @ replaceParenLit rest"
proof -
  from tokenShape_cases [OF assms(1)] assms(2)
  consider "a = RPAREN" | "plainText a" by blast
  then show ?thesis
  proof cases
    case 1
    then show ?thesis using replaceParenLit_other [of 41 rest] by (simp add: sym_defs)
  next
    case 2
    then show ?thesis by (rule replaceParenLit_plain)
  qed
qed

lemma replaceParenLit_space: "replaceParenLit (32 # rest) = 32 # replaceParenLit rest"
  by (rule replaceParenLit_other) simp

lemma match_open_only: "matchParenLit [40] = None"
  by (simp add: matchParenLit_def)

lemma match_one_token:
  assumes "tokenShape b"
  shows "matchParenLit (40 # 32 # b) = None"
proof -
  obtain d b' where b: "b = d # b'" using assms by (cases b) (auto simp: tokenShape_def)
  have nd: "\<not> isSpace d" using tokenShape_hd [OF assms] b by simp
  show ?thesis
  proof (cases "b' = []")
    case True
    then show ?thesis using b nd by (simp add: matchParenLit_def)
  next
    case False
    then have "plainText b" using tokenShape_cases [OF assms] b by (auto simp: sym_defs)
    then have p: "plainText b'" using b by (simp add: plainText_def)
    obtain e b'' where e: "b' = e # b''" using False by (cases b') auto
    then have "\<not> isSpace e" "e \<noteq> 41" using p by (simp_all add: plainText_def)
    then show ?thesis using b nd e by (simp add: matchParenLit_def)
  qed
qed

lemma match_group:
  assumes "tokenShape b" "tokenShape c"
  shows "matchParenLit (40 # 32 # b @ 32 # c @ tail) =
     (if (b = LIT0 \<or> b = LIT1) \<and> c = RPAREN then Some (hd b, tail) else None)"
proof -
  obtain d b' where b: "b = d # b'" using assms(1) by (cases b) (auto simp: tokenShape_def)
  obtain e c' where c: "c = e # c'" using assms(2) by (cases c) (auto simp: tokenShape_def)
  have nd: "\<not> isSpace d" using tokenShape_hd [OF assms(1)] b by simp
  have ne: "\<not> isSpace e" using tokenShape_hd [OF assms(2)] c by simp
  show ?thesis
  proof (cases "b' = []")
    case True
    have ce: "e = 41 \<longleftrightarrow> c = RPAREN"
      using tokenShape_cases [OF assms(2)] c by (auto simp: sym_defs plainText_def)
    have cr: "c = RPAREN \<Longrightarrow> c' = []" using c by (simp add: sym_defs)
    show ?thesis using True b c nd ne ce cr
      by (auto simp: matchParenLit_def sym_defs)
  next
    case False
    then have nl: "b \<noteq> LIT0" "b \<noteq> LIT1" using b by (auto simp: sym_defs)
    have "plainText b" using tokenShape_cases [OF assms(1)] b False by (auto simp: sym_defs)
    then have p: "plainText b'" using b by (simp add: plainText_def)
    obtain f b'' where f: "b' = f # b''" using False by (cases b') auto
    then have "\<not> isSpace f" "f \<noteq> 41" using p by (simp_all add: plainText_def)
    then show ?thesis using b nd f nl by (simp add: matchParenLit_def)
  qed
qed

lemma replaceParenLit_single: "tokenShape t \<Longrightarrow> replaceParenLit t = t"
proof (cases "t = LPAREN")
  case True
  then show ?thesis using replaceParenLit_none [OF match_open_only] by (simp add: sym_defs)
next
  case False
  assume "tokenShape t"
  then show ?thesis using replaceParenLit_token [of t "[]"] False by simp
qed

lemma replaceParenLit_pair:
  assumes "tokenShape a" "tokenShape b"
  shows "replaceParenLit (a @ 32 # b) = a @ 32 # b"
proof (cases "a = LPAREN")
  case True
  then show ?thesis
    using replaceParenLit_none [OF match_one_token [OF assms(2)]] replaceParenLit_space [of b]
      replaceParenLit_single [OF assms(2)]
    by (simp add: sym_defs)
next
  case False
  then show ?thesis
    using replaceParenLit_token [OF assms(1) False, of "32 # b"] replaceParenLit_space [of b]
      replaceParenLit_single [OF assms(2)]
    by simp
qed

lemma replaceParenLit_join:
  "list_all tokenShape ts \<Longrightarrow> replaceParenLit (join ts) = join (unwrapOnce ts)"
proof (induction ts rule: unwrapOnce.induct)
  case (1 a b c rest)
  let ?tail = "if rest = [] then [] else 32 # join rest"
  have sh: "tokenShape a" "tokenShape b" "tokenShape c" "list_all tokenShape rest"
    using "1.prems" by simp_all
  have j: "join (a # b # c # rest) = a @ 32 # b @ 32 # c @ ?tail"
    by (simp add: join_Cons)
  show ?case
  proof (cases "a = LPAREN \<and> (b = LIT0 \<or> b = LIT1) \<and> c = RPAREN")
    case True
    have m: "matchParenLit (40 # 32 # b @ 32 # c @ ?tail) = Some (hd b, ?tail)"
      using match_group [OF sh(2,3)] True by simp
    have "replaceParenLit (join (a # b # c # rest)) = hd b # replaceParenLit ?tail"
      unfolding j using True replaceParenLit_some [OF m] by (simp add: sym_defs)
    also have "hd b # replaceParenLit ?tail = b @ replaceParenLit ?tail"
      using True by (auto simp: sym_defs)
    also have "replaceParenLit ?tail = (if rest = [] then [] else 32 # join (unwrapOnce rest))"
      using "1.IH"(1) [OF True] sh(4) by (simp add: replaceParenLit_space)
    also have "b @ (if rest = [] then [] else 32 # join (unwrapOnce rest))
        = join (b # unwrapOnce rest)"
      by (simp add: join_Cons unwrapOnce_Nil_iff)
    finally show ?thesis using True by simp
  next
    case False
    have ih: "replaceParenLit (join (b # c # rest)) = join (unwrapOnce (b # c # rest))"
      using "1.IH"(2) [OF False] "1.prems" by simp
    have u: "unwrapOnce (a # b # c # rest) = a # unwrapOnce (b # c # rest)"
      by (simp only: unwrapOnce.simps if_not_P [OF False])
    have ne: "unwrapOnce (b # c # rest) \<noteq> []" by (simp only: unwrapOnce_Nil_iff) simp
    have jb: "join (b # c # rest) = b @ 32 # c @ ?tail" by (simp add: join_Cons)
    have "replaceParenLit (a @ 32 # join (b # c # rest))
        = a @ 32 # replaceParenLit (join (b # c # rest))"
    proof (cases "a = LPAREN")
      case True
      have "matchParenLit (40 # 32 # b @ 32 # c @ ?tail) = None"
        using match_group [OF sh(2,3)] False True by simp
      then have "replaceParenLit (40 # 32 # b @ 32 # c @ ?tail)
          = 40 # replaceParenLit (32 # b @ 32 # c @ ?tail)"
        by (rule replaceParenLit_none)
      then show ?thesis unfolding jb using True by (simp add: sym_defs replaceParenLit_space)
    next
      case False
      then show ?thesis
        using replaceParenLit_token [OF sh(1) False] by (simp add: replaceParenLit_space)
    qed
    then have "replaceParenLit (join (a # b # c # rest))
        = a @ 32 # join (unwrapOnce (b # c # rest))"
      using ih by simp
    also have "\<dots> = join (a # unwrapOnce (b # c # rest))"
      using ne by (simp only: join_Cons) simp
    finally show ?thesis unfolding u .
  qed
next
  case "2_1"
  then show ?case by simp
next
  case "2_2"
  then show ?case by (simp add: replaceParenLit_single)
next
  case "2_3"
  then show ?case by (simp add: replaceParenLit_pair)
qed


lemma unwrapAll_shape: "list_all tokenShape ts \<Longrightarrow> list_all tokenShape (unwrapAll ts)"
proof (induction ts rule: unwrapAll.induct)
  case (1 ts)
  show ?case
  proof (cases "unwrapOnce ts = ts")
    case True
    then show ?thesis using "1.prems" by (subst unwrapAll.simps) simp
  next
    case False
    then have "unwrapAll ts = unwrapAll (unwrapOnce ts)" by (subst unwrapAll.simps) simp
    then show ?thesis using "1.IH" [OF refl False] unwrapOnce_shape [OF "1.prems"] by simp
  qed
qed

lemma join_inject:
  "list_all tokenShape xs \<Longrightarrow> list_all tokenShape ys \<Longrightarrow> join xs = join ys \<Longrightarrow> xs = ys"
  using lexer_join by metis

lemma normalizeParens_join:
  "list_all tokenShape ts \<Longrightarrow> normalizeParens (join ts) = join (unwrapAll ts)"
proof (induction ts rule: unwrapAll.induct)
  case (1 ts)
  have r: "replaceParenLit (join ts) = join (unwrapOnce ts)"
    using "1.prems" by (rule replaceParenLit_join)
  have sh: "list_all tokenShape (unwrapOnce ts)" using "1.prems" by (rule unwrapOnce_shape)
  show ?case
  proof (cases "unwrapOnce ts = ts")
    case True
    then have "unwrapAll ts = ts" by (subst unwrapAll.simps) simp
    moreover have "normalizeParens (join ts) = join ts"
      using r True by (subst normalizeParens.simps) simp
    ultimately show ?thesis by simp
  next
    case False
    then have u: "unwrapAll ts = unwrapAll (unwrapOnce ts)" by (subst unwrapAll.simps) simp
    have "join (unwrapOnce ts) \<noteq> join ts" using False join_inject [OF sh "1.prems"] by blast
    then have "normalizeParens (join ts) = normalizeParens (join (unwrapOnce ts))"
      using r by (subst normalizeParens.simps) simp
    then show ?thesis using "1.IH" [OF refl False sh] u by simp
  qed
qed

lemma unwrapOnce_keeps:
  "filter (\<lambda>t. t \<noteq> LPAREN \<and> t \<noteq> RPAREN) (unwrapOnce ts)
     = filter (\<lambda>t. t \<noteq> LPAREN \<and> t \<noteq> RPAREN) ts"
proof (induction ts rule: unwrapOnce.induct)
  case (1 a b c rest)
  show ?case
  proof (cases "a = LPAREN \<and> (b = LIT0 \<or> b = LIT1) \<and> c = RPAREN")
    case True
    have "b \<noteq> LPAREN" "b \<noteq> RPAREN" using True by (auto simp: sym_defs)
    then show ?thesis using True "1.IH"(1) [OF True] by simp
  next
    case False
    have u: "unwrapOnce (a # b # c # rest) = a # unwrapOnce (b # c # rest)"
      by (simp only: unwrapOnce.simps if_not_P [OF False])
    show ?thesis unfolding u using "1.IH"(2) [OF False] by simp
  qed
qed simp_all

lemma unwrapAll_keeps:
  "filter (\<lambda>t. t \<noteq> LPAREN \<and> t \<noteq> RPAREN) (unwrapAll ts)
     = filter (\<lambda>t. t \<noteq> LPAREN \<and> t \<noteq> RPAREN) ts"
proof (induction ts rule: unwrapAll.induct)
  case (1 ts)
  show ?case
  proof (cases "unwrapOnce ts = ts")
    case True
    then show ?thesis by (subst unwrapAll.simps) simp
  next
    case False
    then have "unwrapAll ts = unwrapAll (unwrapOnce ts)" by (subst unwrapAll.simps) simp
    then show ?thesis using "1.IH" [OF refl False] unwrapOnce_keeps [of ts] by simp
  qed
qed

lemma getTokens_join: "list_all tokenShape ts \<Longrightarrow> getTokens (join ts) = ts"
proof (cases "ts = []")
  case True
  then show ?thesis by (simp add: getTokens_def)
next
  case False
  assume a: "list_all tokenShape ts"
  then have l: "lexer [] (join ts) = ts" by (rule lexer_join)
  then have "join ts \<noteq> []" using False by auto
  then show ?thesis using getTokens_lexer [of "join ts"] l False by simp
qed


lemma join_append:
  "xs \<noteq> [] \<Longrightarrow> ys \<noteq> [] \<Longrightarrow> join (xs @ ys) = join xs @ 32 # join ys"
proof (induction xs rule: join.induct)
  case 1
  then show ?case by simp
next
  case (2 t)
  then show ?case by (simp add: join_Cons)
next
  case (3 t v va)
  then show ?case by simp
qed

lemma trim_core:
  assumes "list_all isSpace sp1" "list_all isSpace sp2" "core \<noteq> []"
    "\<not> isSpace (hd core)" "\<not> isSpace (last core)"
  shows "trim (sp1 @ core @ sp2) = core"
proof -
  have 1: "dropWhile isSpace (sp1 @ core @ sp2) = core @ sp2"
  proof -
    have "dropWhile isSpace (sp1 @ core @ sp2) = dropWhile isSpace (core @ sp2)"
      using assms(1) by (simp add: dropWhile_append list_all_iff)
    also have "\<dots> = core @ sp2" using assms(3,4) by (cases core) simp_all
    finally show ?thesis .
  qed
  have 2: "dropWhile isSpace (rev sp2 @ rev core) = rev core"
  proof -
    have "dropWhile isSpace (rev sp2 @ rev core) = dropWhile isSpace (rev core)"
      using assms(2) by (simp add: dropWhile_append list_all_iff)
    also have "\<dots> = rev core"
    proof (cases "rev core")
      case Nil
      then show ?thesis by simp
    next
      case (Cons a list)
      have "hd (rev core) = last core" using assms(3) by (simp add: hd_rev)
      then have "\<not> isSpace a" using assms(5) Cons by simp
      then show ?thesis unfolding Cons by simp
    qed
    finally show ?thesis .
  qed
  show ?thesis unfolding trim_def 1 using 2 by simp
qed

lemma tokenShape_last: "tokenShape t \<Longrightarrow> \<not> isSpace (last t)"
proof -
  assume t: "tokenShape t"
  from tokenShape_cases [OF t] show ?thesis
  proof (elim disjE conjE)
    assume "plainText t" "t \<noteq> []"
    then have "last t \<in> set t" "\<forall>c\<in>set t. \<not> isSpace c"
      by (simp_all add: plainText_def list_all_iff)
    then show ?thesis by blast
  qed (simp_all add: sym_defs)
qed

lemma join_last:
  "list_all tokenShape ts \<Longrightarrow> ts \<noteq> [] \<Longrightarrow> last (join ts) = last (last ts)"
proof (induction ts rule: join.induct)
  case 1
  then show ?case by simp
next
  case (2 t)
  then show ?case by simp
next
  case (3 t v va)
  have "join (v # va) \<noteq> []" using "3.prems" join_hd [of "v # va"] by simp
  then show ?case using 3 by simp
qed

lemma spliced_string:
  assumes "list_all tokenShape pre" "list_all tokenShape post" "v = LIT0 \<or> v = LIT1"
  shows "trim (join pre @ [32] @ v @ [32] @ join post) = join (pre @ [v] @ post)"
proof -
  let ?ts = "pre @ [v] @ post"
  have v: "tokenShape v" using assms(3) by (auto simp: tokenShape_def plainText_def sym_defs)
  have sh: "list_all tokenShape ?ts" using assms(1,2) v by simp
  have ne: "?ts \<noteq> []" by simp
  have core: "join ?ts \<noteq> []" "\<not> isSpace (hd (join ?ts))" "\<not> isSpace (last (join ?ts))"
  proof -
    show "join ?ts \<noteq> []" using join_hd [OF sh ne] by simp
    have "hd ?ts \<in> set ?ts" "last ?ts \<in> set ?ts"
      using ne hd_in_set [of ?ts] last_in_set [of ?ts] by blast+
    then have "tokenShape (hd ?ts)" "tokenShape (last ?ts)"
      using sh unfolding list_all_iff by blast+
    then show "\<not> isSpace (hd (join ?ts))" "\<not> isSpace (last (join ?ts))"
      using join_hd [OF sh ne] join_last [OF sh ne] tokenShape_hd tokenShape_last by simp_all
  qed
  let ?sp1 = "if pre = [] then [32] else []"
  let ?sp2 = "if post = [] then [32] else []"
  have jp: "join ([v] @ post) = v @ (if post = [] then [] else 32 # join post)"
    by (simp add: join_Cons)
  have "join pre @ [32] @ v @ [32] @ join post = ?sp1 @ join ?ts @ ?sp2"
  proof (cases "pre = []")
    case True
    then show ?thesis using jp by simp
  next
    case False
    have "join (pre @ ([v] @ post)) = join pre @ 32 # join ([v] @ post)"
      using False by (intro join_append) simp_all
    then show ?thesis using False jp by simp
  qed
  moreover have "trim (?sp1 @ join ?ts @ ?sp2) = join ?ts"
    using core by (intro trim_core) simp_all
  ultimately show ?thesis by simp
qed

lemma normalized_tokens:
  assumes "list_all tokenShape pre" "list_all tokenShape post" "v = LIT0 \<or> v = LIT1"
  shows "getTokens (normalizeParens (trim (join pre @ [32] @ v @ [32] @ join post)))
     = unwrapAll (pre @ [v] @ post)"
proof -
  have v: "tokenShape v" using assms(3) by (auto simp: tokenShape_def plainText_def sym_defs)
  have sh: "list_all tokenShape (pre @ [v] @ post)" using assms(1,2) v by simp
  show ?thesis
    unfolding spliced_string [OF assms] normalizeParens_join [OF sh]
    by (rule getTokens_join) (rule unwrapAll_shape [OF sh])
qed

declare replaceParenLit.simps(2) [simp]

lemma clickToken_unchanged:
  "history (clickToken idx st) = history st \<Longrightarrow> tokenCount (clickToken idx st) = tokenCount st"
  by (simp add: tokenCount_def)

lemma clickToken_accepted:
  assumes "history (clickToken idx st) \<noteq> history st"
  shows "\<exists>pre v post.
     history (clickToken idx st) =
       history st @ [\<lparr>step = length (history st),
          content = normalizeParens (trim (join pre @ [32] @ v @ [32] @ join post)),
          kind = Reduction\<rparr>] \<and>
     getTokens (trim (join pre @ [32] @ v @ [32] @ join post)) = pre @ [v] @ post \<and>
     ((getTokens (content (last (history st))) ! idx = SYM_NOT \<and>
         length (pre @ [v] @ post) + 1 = length (getTokens (content (last (history st))))) \<or>
      (getTokens (content (last (history st))) ! idx \<noteq> SYM_NOT \<and>
         length (pre @ [v] @ post) + 2 = length (getTokens (content (last (history st)))))) \<and>
     getTokens (normalizeParens (trim (join pre @ [32] @ v @ [32] @ join post)))
       = unwrapAll (pre @ [v] @ post) \<and>
     filter (\<lambda>t. t \<noteq> LPAREN \<and> t \<noteq> RPAREN) (unwrapAll (pre @ [v] @ post))
       = filter (\<lambda>t. t \<noteq> LPAREN \<and> t \<noteq> RPAREN) (pre @ [v] @ post) \<and>
     length (getTokens (normalizeParens (trim (join pre @ [32] @ v @ [32] @ join post))))
       \<le> length (pre @ [v] @ post)"
proof -
  let ?tokens = "getTokens (content (last (history st)))"
  have ne: "history st \<noteq> []" using assms by (auto simp: clickToken_def)
  have i: "interactable ?tokens idx"
    using assms ne by (auto simp: clickToken_def Let_def split: if_splits)
  have h: "clickToken idx st = handleInteraction idx ?tokens st"
    using assms ne by (auto simp: clickToken_def Let_def split: if_splits)
  then have "history (handleInteraction idx ?tokens st) \<noteq> history st" using assms by simp
  from handleInteraction_splice [OF i this]
  obtain pre v post where s:
    "handleInteraction idx ?tokens st =
       addToHistory (trim (join pre @ [32] @ v @ [32] @ join post)) (st\<lparr>msg := []\<rparr>)"
    "v = LIT0 \<or> v = LIT1" "post = drop (idx + 2) ?tokens"
    "(?tokens ! idx = SYM_NOT \<and> pre = take idx ?tokens) \<or>
     (?tokens ! idx \<noteq> SYM_NOT \<and> pre = take (idx - 1) ?tokens)"
    by blast
  let ?new = "trim (join pre @ [32] @ v @ [32] @ join post)"
  have shape: "list_all tokenShape ?tokens" using i by (rule interactable_getTokens_shape)
  have pp: "list_all tokenShape pre" "list_all tokenShape post"
    using s(3,4) list_all_take_drop [OF shape] by auto
  have toks: "getTokens ?new = pre @ [v] @ post" using pp s(2) by (rule spliced_tokens)
  have lex: "lexer [] ?new = pre @ [v] @ post" using pp s(2) by (rule spliced_lexer)
  have "length (getTokens (normalizeParens ?new)) \<le> max 1 (length (lexer [] (normalizeParens ?new)))"
    by (rule getTokens_length)
  also have "\<dots> \<le> max 1 (length (lexer [] ?new))"
    using lexer_normalizeParens [of ?new] by simp
  also have "\<dots> = length (pre @ [v] @ post)" unfolding lex by simp
  finally have le: "length (getTokens (normalizeParens ?new)) \<le> length (pre @ [v] @ post)" .
  have cnt: "(?tokens ! idx = SYM_NOT \<and> length (pre @ [v] @ post) + 1 = length ?tokens) \<or>
      (?tokens ! idx \<noteq> SYM_NOT \<and> length (pre @ [v] @ post) + 2 = length ?tokens)"
    using s(3,4) interactable_cases [OF i] by auto
  have "history (clickToken idx st) =
       history st @ [\<lparr>step = length (history st), content = normalizeParens ?new,
          kind = Reduction\<rparr>]"
    unfolding h s(1) by (simp add: addToHistory_def)
  moreover have "getTokens (normalizeParens ?new) = unwrapAll (pre @ [v] @ post)"
    using pp s(2) by (rule normalized_tokens)
  moreover have "filter (\<lambda>t. t \<noteq> LPAREN \<and> t \<noteq> RPAREN) (unwrapAll (pre @ [v] @ post))
       = filter (\<lambda>t. t \<noteq> LPAREN \<and> t \<noteq> RPAREN) (pre @ [v] @ post)"
    by (rule unwrapAll_keeps)
  ultimately show ?thesis using toks cnt le by blast
qed

lemma clickToken_decreases:
  assumes "history (clickToken idx st) \<noteq> history st"
  shows "tokenCount (clickToken idx st) < tokenCount st \<and>
         length (history (clickToken idx st)) = Suc (length (history st))"
proof -
  have ne: "history st \<noteq> []" using assms by (auto simp: clickToken_def)
  from clickToken_accepted [OF assms] obtain pre v post where a:
    "history (clickToken idx st) =
       history st @ [\<lparr>step = length (history st),
          content = normalizeParens (trim (join pre @ [32] @ v @ [32] @ join post)),
          kind = Reduction\<rparr>]"
    "length (pre @ [v] @ post) < length (getTokens (content (last (history st))))"
    "length (getTokens (normalizeParens (trim (join pre @ [32] @ v @ [32] @ join post))))
       \<le> length (pre @ [v] @ post)"
    by fastforce
  have "tokenCount (clickToken idx st) =
      length (getTokens (normalizeParens (trim (join pre @ [32] @ v @ [32] @ join post))))"
    unfolding tokenCount_def a(1) by simp
  moreover have "tokenCount st = length (getTokens (content (last (history st))))"
    using ne by (simp add: tokenCount_def)
  ultimately show ?thesis using a by simp
qed

lemma clickToken_measure:
  "length (history st) \<le> length (history (clickToken idx st)) \<and>
   length (history (clickToken idx st)) + tokenCount (clickToken idx st)
     \<le> length (history st) + tokenCount st"
proof (cases "history (clickToken idx st) = history st")
  case True
  then show ?thesis using clickToken_unchanged [OF True] by simp
next
  case False
  then show ?thesis using clickToken_decreases [OF False] by simp
qed

lemma clickTokens_measure:
  "length (history st) \<le> length (history (clickTokens idxs st)) \<and>
   length (history (clickTokens idxs st)) + tokenCount (clickTokens idxs st)
     \<le> length (history st) + tokenCount st"
proof (induction idxs arbitrary: st)
  case Nil
  then show ?case by simp
next
  case (Cons idx idxs)
  show ?case
    using Cons.IH [of "clickToken idx st"] clickToken_measure [of st idx] by simp
qed

text \<open>
  Claim C9. A click that changes the history appends one entry. The string spliced
  together by the reduction has the tokens of the current step with \<open>\<not> v\<close> (one token less)
  or \<open>l op r\<close> (two tokens less) replaced by the result; the normalization unwraps groups
  \<open>( v )\<close> of these tokens and removes nothing but parenthesis tokens, so it does not add
  tokens; so the recorded step has strictly fewer tokens than the current one. Hence any
  sequence of clicks appends at most as many entries as the current step has tokens.
\<close>

theorem reductions_terminate:
  "(history (clickToken idx st) \<noteq> history st \<longrightarrow>
     (\<exists>pre v post.
        history (clickToken idx st) =
          history st @ [\<lparr>step = length (history st),
             content = normalizeParens (trim (join pre @ [32] @ v @ [32] @ join post)),
             kind = Reduction\<rparr>] \<and>
        getTokens (trim (join pre @ [32] @ v @ [32] @ join post)) = pre @ [v] @ post \<and>
        ((getTokens (content (last (history st))) ! idx = SYM_NOT \<and>
            length (pre @ [v] @ post) + 1 = length (getTokens (content (last (history st))))) \<or>
         (getTokens (content (last (history st))) ! idx \<noteq> SYM_NOT \<and>
            length (pre @ [v] @ post) + 2 = length (getTokens (content (last (history st)))))) \<and>
        getTokens (normalizeParens (trim (join pre @ [32] @ v @ [32] @ join post)))
          = unwrapAll (pre @ [v] @ post) \<and>
        filter (\<lambda>t. t \<noteq> LPAREN \<and> t \<noteq> RPAREN) (unwrapAll (pre @ [v] @ post))
          = filter (\<lambda>t. t \<noteq> LPAREN \<and> t \<noteq> RPAREN) (pre @ [v] @ post) \<and>
        length (getTokens (normalizeParens (trim (join pre @ [32] @ v @ [32] @ join post))))
          \<le> length (pre @ [v] @ post)) \<and>
     tokenCount (clickToken idx st) < tokenCount st) \<and>
   length (history st) \<le> length (history (clickTokens idxs st)) \<and>
   length (history (clickTokens idxs st)) \<le> length (history st) + tokenCount st"
  using clickToken_accepted [of idx st] clickToken_decreases [of idx st]
    clickTokens_measure [of st idxs] by auto

theorem reductions_terminate_witness:
  "history (clickToken 1 exampleState) \<noteq> history exampleState \<and>
   tokenCount exampleState = 5 \<and> tokenCount (clickToken 1 exampleState) < 5 \<and>
   length (history (clickTokens [1, 3, 1, 0, 1] exampleState)) \<le> 2 + 5"
proof -
  have h: "history (clickToken 1 exampleState) \<noteq> history exampleState"
    by (simp add: exampleState_def engine_eval)
  have t: "tokenCount exampleState = 5"
    by (simp add: tokenCount_def exampleState_def engine_eval)
  have l: "length (history exampleState) = 2" by (simp add: exampleState_def)
  show ?thesis
    using h reductions_terminate [of 1 exampleState "[1, 3, 1, 0, 1]"] unfolding t l by simp
qed

section \<open>Normalization of parentheses after a reduction\<close>

lemma groupAt_Suc: "groupAt (a # ts) (Suc i) = groupAt ts i"
  by (simp add: groupAt_def)

lemma groupAt_0:
  "groupAt (a # b # c # rest) 0 = (a = LPAREN \<and> (b = LIT0 \<or> b = LIT1) \<and> c = RPAREN)"
  by (simp add: groupAt_def)

lemma unwrapAt_Cons: "unwrapAt i ts = Some ts' \<Longrightarrow> unwrapAt (Suc i) (a # ts) = Some (a # ts')"
  by (auto simp: unwrapAt_def groupAt_Suc drop_Cons' add.commute split: if_splits)

lemma unwrapAts_Cons:
  "unwrapAts ps ts = Some ts' \<Longrightarrow> unwrapAts (map Suc ps) (a # ts) = Some (a # ts')"
proof (induction ps arbitrary: ts)
  case Nil
  then show ?case by simp
next
  case (Cons i ps)
  then obtain m where m: "unwrapAt i ts = Some m" "unwrapAts ps m = Some ts'"
    by (auto split: option.splits)
  show ?case using unwrapAt_Cons [OF m(1), of a] Cons.IH [OF m(2)] by simp
qed

lemma unwrapAts_append:
  "unwrapAts ps ts = Some m \<Longrightarrow> unwrapAts qs m = Some ts' \<Longrightarrow> unwrapAts (ps @ qs) ts = Some ts'"
  by (induction ps arbitrary: ts) (auto split: option.splits)

lemma unwrapOnce_steps: "\<exists>ps. unwrapAts ps ts = Some (unwrapOnce ts)"
proof (induction ts rule: unwrapOnce.induct)
  case (1 a b c rest)
  show ?case
  proof (cases "a = LPAREN \<and> (b = LIT0 \<or> b = LIT1) \<and> c = RPAREN")
    case True
    from "1.IH"(1) [OF True] obtain ps where ps: "unwrapAts ps rest = Some (unwrapOnce rest)" ..
    have "unwrapAt 0 (a # b # c # rest) = Some (b # rest)"
      using True by (simp add: unwrapAt_def groupAt_0)
    then have "unwrapAts (0 # map Suc ps) (a # b # c # rest) = Some (b # unwrapOnce rest)"
      using unwrapAts_Cons [OF ps, of b] by simp
    then show ?thesis using True by (intro exI [of _ "0 # map Suc ps"]) simp
  next
    case False
    from "1.IH"(2) [OF False] obtain ps where
      ps: "unwrapAts ps (b # c # rest) = Some (unwrapOnce (b # c # rest))" ..
    have u: "unwrapOnce (a # b # c # rest) = a # unwrapOnce (b # c # rest)"
      by (simp only: unwrapOnce.simps if_not_P [OF False])
    show ?thesis unfolding u using unwrapAts_Cons [OF ps, of a] by blast
  qed
next
  case "2_1"
  show ?case by (intro exI [of _ "[]"]) simp
next
  case "2_2"
  show ?case by (intro exI [of _ "[]"]) simp
next
  case "2_3"
  show ?case by (intro exI [of _ "[]"]) simp
qed

lemma unwrapAll_steps: "\<exists>ps. unwrapAts ps ts = Some (unwrapAll ts)"
proof (induction ts rule: unwrapAll.induct)
  case (1 ts)
  show ?case
  proof (cases "unwrapOnce ts = ts")
    case True
    then have "unwrapAll ts = ts" by (subst unwrapAll.simps) simp
    then show ?thesis by (intro exI [of _ "[]"]) simp
  next
    case False
    then have u: "unwrapAll ts = unwrapAll (unwrapOnce ts)" by (subst unwrapAll.simps) simp
    from "1.IH" [OF refl False] obtain qs where
      qs: "unwrapAts qs (unwrapOnce ts) = Some (unwrapAll (unwrapOnce ts))" ..
    from unwrapOnce_steps [of ts] obtain ps where ps: "unwrapAts ps ts = Some (unwrapOnce ts)" ..
    show ?thesis unfolding u using unwrapAts_append [OF ps qs] by blast
  qed
qed

lemma unwrapOnce_fixed_no_group: "unwrapOnce ts = ts \<Longrightarrow> \<not> groupAt ts i"
proof (induction ts arbitrary: i rule: unwrapOnce.induct)
  case (1 a b c rest)
  show ?case
  proof (cases "a = LPAREN \<and> (b = LIT0 \<or> b = LIT1) \<and> c = RPAREN")
    case True
    then have "length (unwrapOnce (a # b # c # rest)) \<le> Suc (length rest)"
      using length_unwrapOnce [of rest] by simp
    then show ?thesis using "1.prems" by simp
  next
    case False
    have u: "unwrapOnce (a # b # c # rest) = a # unwrapOnce (b # c # rest)"
      by (simp only: unwrapOnce.simps if_not_P [OF False])
    then have "unwrapOnce (b # c # rest) = b # c # rest" using "1.prems" by simp
    then have t: "\<not> groupAt (b # c # rest) j" for j using "1.IH"(2) [OF False] by blast
    show ?thesis
    proof (cases i)
      case 0
      then show ?thesis using False by (simp add: groupAt_0)
    next
      case (Suc j)
      then show ?thesis using t [of j] by (simp add: groupAt_Suc)
    qed
  qed
qed (simp_all add: groupAt_def)

lemma unwrapAll_fixed: "unwrapOnce (unwrapAll ts) = unwrapAll ts"
proof (induction ts rule: unwrapAll.induct)
  case (1 ts)
  show ?case
  proof (cases "unwrapOnce ts = ts")
    case True
    then have "unwrapAll ts = ts" by (subst unwrapAll.simps) simp
    then show ?thesis using True by simp
  next
    case False
    then have "unwrapAll ts = unwrapAll (unwrapOnce ts)" by (subst unwrapAll.simps) simp
    then show ?thesis using "1.IH" [OF refl False] by simp
  qed
qed

lemma unwrapAll_no_group: "\<not> groupAt (unwrapAll ts) i"
  using unwrapAll_fixed by (rule unwrapOnce_fixed_no_group)

lemma handleInteraction_reduceAt:
  assumes "interactable tokens idx"
    and "history (handleInteraction idx tokens st) \<noteq> history st"
  shows "\<exists>pre v post.
     handleInteraction idx tokens st =
       addToHistory (trim (join pre @ [32] @ v @ [32] @ join post)) (st\<lparr>msg := []\<rparr>) \<and>
     (v = LIT0 \<or> v = LIT1) \<and> reduceAt tokens idx = pre @ [v] @ post \<and>
     (\<exists>m n. pre = take m tokens \<and> post = drop n tokens)"
proof -
  have lt: "idx < length tokens" using assms(1) by (rule interactable_lt)
  have tok: "elemAt tokens (int idx) = Some (tokens ! idx)" using lt by (simp add: elemAt_def)
  have c: "candidatesOf tokens \<noteq> []" using assms(1) by (rule candidatesOf_nonempty)
  show ?thesis
  proof (cases "tokens ! idx = SYM_NOT")
    case True
    let ?v = "evaluateNot (elemAt tokens (int idx + 1))"
    have "handleInteraction idx tokens st =
        addToHistory (trim (join (take idx tokens) @ [32] @ ?v
          @ [32] @ join (drop (idx + 2) tokens))) (st\<lparr>msg := []\<rparr>)"
      using assms(2) c tok True unfolding handleInteraction_def Let_def
      by (auto simp: slice_take sliceFrom_drop2 split: if_splits option.splits)
    moreover have "reduceAt tokens idx = take idx tokens @ [?v] @ drop (idx + 2) tokens"
      using True by (simp add: reduceAt_def)
    ultimately show ?thesis using evaluateNot_val [of "elemAt tokens (int idx + 1)"] by blast
  next
    case False
    let ?v = "evaluateOp (elemAt tokens (int idx - 1)) (Some (tokens ! idx))
        (elemAt tokens (int idx + 1))"
    have one: "1 \<le> idx" using interactable_cases [OF assms(1)] False by auto
    have "handleInteraction idx tokens st =
        addToHistory (trim (join (take (idx - 1) tokens) @ [32] @ ?v
          @ [32] @ join (drop (idx + 2) tokens))) (st\<lparr>msg := []\<rparr>)"
      using assms(2) c tok False one unfolding handleInteraction_def Let_def
      by (auto simp: slice_take_pred sliceFrom_drop2 split: if_splits option.splits)
    moreover have "reduceAt tokens idx = take (idx - 1) tokens @ [?v] @ drop (idx + 2) tokens"
      using False by (simp add: reduceAt_def)
    ultimately show ?thesis
      using evaluateOp_val [of "elemAt tokens (int idx - 1)" "Some (tokens ! idx)"
          "elemAt tokens (int idx + 1)"] by blast
  qed
qed

lemma clickToken_content:
  assumes "history (clickToken idx st) \<noteq> history st"
  shows "history (clickToken idx st) =
       history st @ [\<lparr>step = length (history st),
          content = join (unwrapAll (reduceAt (getTokens (content (last (history st)))) idx)),
          kind = Reduction\<rparr>] \<and>
     list_all tokenShape (reduceAt (getTokens (content (last (history st)))) idx)"
proof -
  let ?tokens = "getTokens (content (last (history st)))"
  have ne: "history st \<noteq> []" using assms by (auto simp: clickToken_def)
  have i: "interactable ?tokens idx"
    using assms ne by (auto simp: clickToken_def Let_def split: if_splits)
  have h: "clickToken idx st = handleInteraction idx ?tokens st"
    using assms ne by (auto simp: clickToken_def Let_def split: if_splits)
  then have "history (handleInteraction idx ?tokens st) \<noteq> history st" using assms by simp
  from handleInteraction_reduceAt [OF i this]
  obtain pre v post m n where s:
    "handleInteraction idx ?tokens st =
       addToHistory (trim (join pre @ [32] @ v @ [32] @ join post)) (st\<lparr>msg := []\<rparr>)"
    "v = LIT0 \<or> v = LIT1" "reduceAt ?tokens idx = pre @ [v] @ post"
    "pre = take m ?tokens" "post = drop n ?tokens"
    by blast
  have shape: "list_all tokenShape ?tokens" using i by (rule interactable_getTokens_shape)
  have pp: "list_all tokenShape pre" "list_all tokenShape post"
    using s(4,5) list_all_take_drop [OF shape] by auto
  have v: "tokenShape v" using s(2) by (auto simp: tokenShape_def plainText_def sym_defs)
  have sh: "list_all tokenShape (pre @ [v] @ post)" using pp v by simp
  have "normalizeParens (trim (join pre @ [32] @ v @ [32] @ join post))
      = join (unwrapAll (pre @ [v] @ post))"
    unfolding spliced_string [OF pp s(2)] by (rule normalizeParens_join [OF sh])
  then have "history (clickToken idx st) =
       history st @ [\<lparr>step = length (history st),
          content = join (unwrapAll (pre @ [v] @ post)), kind = Reduction\<rparr>]"
    unfolding h s(1) by (simp add: addToHistory_def)
  then show ?thesis using sh unfolding s(3) by simp
qed

text \<open>
  Claim C7. A click that changes the history appends one entry. Its content is the
  tokens \<open>out\<close> joined by single blanks, where \<open>out\<close> is obtained from the tokens that the
  reduction splices together by rewriting groups \<open>( v )\<close>, \<open>v\<close> one of \<open>0\<close> and \<open>1\<close>, to \<open>v\<close>,
  one after the other, and \<open>out\<close> has no such group left; every other token is kept.
  Read as a string, the content has no match of \<open>( v )\<close> at any position, and it is read
  back as the tokens \<open>out\<close>. Reducing the NOT of \<open>(\<not> 1)\<close> records \<open>0\<close>, not \<open>(0)\<close>; reducing
  the NOT of \<open>((1)) \<and> \<not> 0\<close> records \<open>1 \<and> 1\<close>, both pairs around the \<open>1\<close> removed.
\<close>

theorem parenthesis_normalization:
  "(history (clickToken idx st) \<noteq> history st \<longrightarrow>
      (\<exists>ps out.
         unwrapAts ps (reduceAt (getTokens (content (last (history st)))) idx) = Some out \<and>
         (\<forall>i. \<not> groupAt out i) \<and>
         filter (\<lambda>t. t \<noteq> LPAREN \<and> t \<noteq> RPAREN) out =
           filter (\<lambda>t. t \<noteq> LPAREN \<and> t \<noteq> RPAREN)
             (reduceAt (getTokens (content (last (history st)))) idx) \<and>
         history (clickToken idx st) =
           history st @ [\<lparr>step = length (history st), content = join out, kind = Reduction\<rparr>] \<and>
         getTokens (join out) = out \<and>
         (\<forall>p. matchParenLit (drop p (join out)) = None))) \<and>
   getTokens [40, 172, 32, 49, 41] = [LPAREN, SYM_NOT, LIT1, RPAREN] \<and>
   map content (history (clickToken 1 negState)) =
     [[40, 172, 32, 80, 41], [40, 172, 32, 49, 41], [48]] \<and>
   getTokens [40, 40, 49, 41, 41, 32, 8743, 32, 172, 32, 48] =
     [LPAREN, LPAREN, LIT1, RPAREN, RPAREN, SYM_AND, SYM_NOT, LIT0] \<and>
   map content (history (clickToken 6 parenState)) =
     [[40, 40, 80, 41, 41, 32, 8743, 32, 172, 32, 81],
      [40, 40, 49, 41, 41, 32, 8743, 32, 172, 32, 48], [49, 32, 8743, 32, 49]]"
proof (intro conjI impI)
  assume a: "history (clickToken idx st) \<noteq> history st"
  let ?ts = "reduceAt (getTokens (content (last (history st)))) idx"
  from unwrapAll_steps [of ?ts] obtain ps where ps: "unwrapAts ps ?ts = Some (unwrapAll ?ts)" ..
  have c: "history (clickToken idx st) =
       history st @ [\<lparr>step = length (history st), content = join (unwrapAll ?ts),
          kind = Reduction\<rparr>]"
    and sh: "list_all tokenShape ?ts"
    using clickToken_content [OF a] by simp_all
  have g: "getTokens (join (unwrapAll ?ts)) = unwrapAll ?ts"
    using unwrapAll_shape [OF sh] by (rule getTokens_join)
  have "normalizeParens (join ?ts) = join (unwrapAll ?ts)" using sh by (rule normalizeParens_join)
  then have "replaceParenLit (join (unwrapAll ?ts)) = join (unwrapAll ?ts)"
    using normalizeParens_fixed [of "join ?ts"] by simp
  then have m: "\<forall>p. matchParenLit (drop p (join (unwrapAll ?ts))) = None"
    using fixed_no_match by blast
  show "\<exists>ps out.
         unwrapAts ps ?ts = Some out \<and>
         (\<forall>i. \<not> groupAt out i) \<and>
         filter (\<lambda>t. t \<noteq> LPAREN \<and> t \<noteq> RPAREN) out =
           filter (\<lambda>t. t \<noteq> LPAREN \<and> t \<noteq> RPAREN) ?ts \<and>
         history (clickToken idx st) =
           history st @ [\<lparr>step = length (history st), content = join out, kind = Reduction\<rparr>] \<and>
         getTokens (join out) = out \<and>
         (\<forall>p. matchParenLit (drop p (join out)) = None)"
    using ps unwrapAll_no_group [of ?ts] unwrapAll_keeps [of ?ts] c g m
    by (intro exI [of _ ps] exI [of _ "unwrapAll ?ts"]) simp
next
  show "getTokens [40, 172, 32, 49, 41] = [LPAREN, SYM_NOT, LIT1, RPAREN]"
    by (simp add: engine_eval)
next
  show "map content (history (clickToken 1 negState)) =
     [[40, 172, 32, 80, 41], [40, 172, 32, 49, 41], [48]]"
    by (simp add: negState_def engine_eval)
next
  show "getTokens [40, 40, 49, 41, 41, 32, 8743, 32, 172, 32, 48] =
     [LPAREN, LPAREN, LIT1, RPAREN, RPAREN, SYM_AND, SYM_NOT, LIT0]"
    by (simp add: engine_eval)
next
  show "map content (history (clickToken 6 parenState)) =
     [[40, 40, 80, 41, 41, 32, 8743, 32, 172, 32, 81],
      [40, 40, 49, 41, 41, 32, 8743, 32, 172, 32, 48], [49, 32, 8743, 32, 49]]"
    by (simp add: parenState_def engine_eval)
qed

theorem parenthesis_normalization_witness:
  "history (clickToken 6 parenState) \<noteq> history parenState \<and>
   (\<exists>ps out.
      unwrapAts ps [LPAREN, LPAREN, LIT1, RPAREN, RPAREN, SYM_AND, LIT1] = Some out \<and>
      (\<forall>i. \<not> groupAt out i) \<and>
      history (clickToken 6 parenState) =
        history parenState @ [\<lparr>step = length (history parenState), content = join out,
                                kind = Reduction\<rparr>])"
proof -
  have h: "history (clickToken 6 parenState) \<noteq> history parenState"
    by (simp add: parenState_def engine_eval)
  have r: "reduceAt (getTokens (content (last (history parenState)))) 6 =
      [LPAREN, LPAREN, LIT1, RPAREN, RPAREN, SYM_AND, LIT1]"
    by (simp add: parenState_def reduceAt_def engine_eval)
  show ?thesis
    using h parenthesis_normalization [of 6 parenState] unfolding r by blast
qed

section \<open>The round trip through the canonical string\<close>

lemma splitDelimiters_scan:
  "filter (\<lambda>t. t \<noteq> []) (splitDelimiters cur s) = scanDelimiters cur s"
  by (induction s arbitrary: cur) (auto simp: flushTok_def isDelimiter_def)

lemma tokenize_scan: "tokenize s = scanDelimiters [] (filter (\<lambda>c. \<not> isSpace c) s)"
  by (simp add: tokenize_def splitDelimiters_scan)

lemma scan_plain:
  "list_all (\<lambda>c. \<not> isDelimiter c) v \<Longrightarrow> scanDelimiters cur (v @ rest) = scanDelimiters (cur @ v) rest"
  by (induction v arbitrary: cur) simp_all

lemma isBinaryOp_glyph: "isBinaryOp v \<Longrightarrow> \<exists>g. v = [g] \<and> isDelimiter g \<and> \<not> isSpace g"
  by (auto simp: isBinaryOp_def sym_defs isDelimiter_def isSpace_def)

lemma cleanAtom_filter: "cleanAtom v \<Longrightarrow> filter (\<lambda>c. \<not> isSpace c) v = v"
  by (simp add: cleanAtom_def list_all_iff)

lemma compact_render: "cleanTree t \<Longrightarrow> filter (\<lambda>c. \<not> isSpace c) (toFullString t) = compact t"
proof (induction t)
  case (ATOM v)
  then show ?case by (simp add: cleanAtom_filter)
next
  case (NOT t)
  then show ?case by (simp add: sym_defs isSpace_def)
next
  case (BIN v l r)
  then obtain g where "v = [g]" "\<not> isSpace g" using isBinaryOp_glyph by auto
  then show ?case using BIN by (simp add: isSpace_def)
qed

lemma scan_compact:
  "cleanTree t \<Longrightarrow> rest = [] \<or> isDelimiter (hd rest) \<Longrightarrow>
   scanDelimiters [] (compact t @ rest) = treeTokens t @ scanDelimiters [] rest"
proof (induction t arbitrary: rest)
  case (ATOM v)
  have v: "list_all (\<lambda>c. \<not> isDelimiter c) v" "v \<noteq> []"
    using ATOM.prems(1) by (auto simp: cleanAtom_def list_all_iff)
  have "scanDelimiters [] (v @ rest) = scanDelimiters v rest"
    using scan_plain [OF v(1), of "[]" rest] by simp
  also have "\<dots> = [v] @ scanDelimiters [] rest"
    using ATOM.prems(2) v(2) by (cases rest) (auto simp: flushTok_def)
  finally show ?case by simp
next
  case (NOT t)
  have d: "isDelimiter 40" "isDelimiter 41" "isDelimiter 172" by (simp_all add: isDelimiter_def)
  have "scanDelimiters [] (compact t @ (41 # rest)) = treeTokens t @ scanDelimiters [] (41 # rest)"
    using NOT.prems(1) by (intro NOT.IH) (simp_all add: d)
  then show ?case using d by (simp add: sym_defs)
next
  case (BIN v l r)
  obtain g where g: "v = [g]" "isDelimiter g" using BIN.prems(1) isBinaryOp_glyph by auto
  have d: "isDelimiter 40" "isDelimiter 41" by (simp_all add: isDelimiter_def)
  have 1: "scanDelimiters [] (compact r @ (41 # rest)) = treeTokens r @ scanDelimiters [] (41 # rest)"
    using BIN.prems(1) by (intro BIN.IH(2)) (simp_all add: d)
  have 2: "scanDelimiters [] (compact l @ (g # compact r @ 41 # rest))
      = treeTokens l @ scanDelimiters [] (g # compact r @ 41 # rest)"
    using BIN.prems(1) g by (intro BIN.IH(1)) simp_all
  show ?case using 1 2 g d by (simp add: sym_defs)
qed

lemma tokenize_render: "cleanTree t \<Longrightarrow> tokenize (toFullString t) = treeTokens t"
  using scan_compact [of t "[]"] by (simp add: tokenize_scan compact_render)

lemma parenSum_simps [simp]:
  "parenSum [] = 0"
  "parenSum (t # ts) = (if t = LPAREN then 1 else if t = RPAREN then - 1 else 0) + parenSum ts"
  "parenSum (a @ b) = parenSum a + parenSum b"
  by (simp_all add: parenSum_def sym_defs)

lemma parenSum_take_drop: "parenSum (take n ts) + parenSum (drop n ts) = parenSum ts"
  using parenSum_simps(3) [of "take n ts" "drop n ts"] by simp

lemma isBalanced_loop_iff:
  "0 \<le> b \<Longrightarrow>
   isBalanced_loop ts b \<longleftrightarrow> (b + parenSum ts = 0 \<and> (\<forall>n. 0 \<le> b + parenSum (take n ts)))"
proof (induction ts arbitrary: b)
  case Nil
  then show ?case by auto
next
  case (Cons t ts)
  let ?d = "(if t = LPAREN then 1 else if t = RPAREN then - 1 else 0) :: int"
  have step: "isBalanced_loop (t # ts) b = (if b + ?d < 0 then False else isBalanced_loop ts (b + ?d))"
    by (auto simp: Let_def sym_defs)
  show ?case
  proof (cases "b + ?d < 0")
    case True
    have "parenSum (take 1 (t # ts)) = ?d" by simp
    then have "\<not> 0 \<le> b + parenSum (take 1 (t # ts))" using True by simp
    then have "\<not> (\<forall>n. 0 \<le> b + parenSum (take n (t # ts)))" by blast
    then show ?thesis using step True by simp
  next
    case False
    then have nn: "0 \<le> b + ?d" by simp
    have "(\<forall>n. 0 \<le> b + parenSum (take n (t # ts))) \<longleftrightarrow>
        (\<forall>n. 0 \<le> b + ?d + parenSum (take n ts))"
    proof
      assume a: "\<forall>n. 0 \<le> b + parenSum (take n (t # ts))"
      show "\<forall>n. 0 \<le> b + ?d + parenSum (take n ts)"
      proof
        fix n show "0 \<le> b + ?d + parenSum (take n ts)" using a [rule_format, of "Suc n"] by simp
      qed
    next
      assume a: "\<forall>n. 0 \<le> b + ?d + parenSum (take n ts)"
      show "\<forall>n. 0 \<le> b + parenSum (take n (t # ts))"
      proof
        fix n show "0 \<le> b + parenSum (take n (t # ts))"
          using a [rule_format, of "n - 1"] Cons.prems by (cases n) simp_all
      qed
    qed
    then show ?thesis using step False Cons.IH [OF nn] by (simp add: add.assoc)
  qed
qed

lemma isBalanced_iff: "isBalanced ts \<longleftrightarrow> balancedToks ts"
  unfolding isBalanced_def balancedToks_def using isBalanced_loop_iff [of 0 ts] by simp

lemma balanceAt_parenSum: "balanceAt ts i = - parenSum (drop i ts)"
  by (simp add: balanceAt_def parenSum_def)

lemma balancedToks_single: "t \<noteq> LPAREN \<Longrightarrow> t \<noteq> RPAREN \<Longrightarrow> balancedToks [t]"
proof -
  assume t: "t \<noteq> LPAREN" "t \<noteq> RPAREN"
  have "parenSum (take n [t]) = 0" for n using t by (cases n) simp_all
  then show ?thesis using t by (simp add: balancedToks_def)
qed

lemma balancedToks_append:
  assumes "balancedToks a" "balancedToks b"
  shows "balancedToks (a @ b)"
proof -
  have "0 \<le> parenSum (take n (a @ b))" for n
  proof -
    have "parenSum (take n (a @ b)) = parenSum (take n a) + parenSum (take (n - length a) b)"
      by simp
    moreover have "0 \<le> parenSum (take n a)" "0 \<le> parenSum (take (n - length a) b)"
      using assms by (simp_all add: balancedToks_def)
    ultimately show ?thesis by simp
  qed
  then show ?thesis using assms by (simp add: balancedToks_def)
qed

lemma balancedToks_paren:
  assumes "balancedToks a"
  shows "balancedToks (LPAREN # a @ [RPAREN])"
proof -
  have ne: "LPAREN \<noteq> RPAREN" by (simp add: sym_defs)
  have "0 \<le> parenSum (take n (LPAREN # a @ [RPAREN]))" for n
  proof (cases n)
    case 0
    then show ?thesis by simp
  next
    case (Suc m)
    show ?thesis
    proof (cases "m \<le> length a")
      case True
      then have "parenSum (take n (LPAREN # a @ [RPAREN])) = 1 + parenSum (take m a)"
        using Suc by simp
      moreover have "0 \<le> parenSum (take m a)" using assms by (simp add: balancedToks_def)
      ultimately show ?thesis by simp
    next
      case False
      then have "take n (LPAREN # a @ [RPAREN]) = LPAREN # a @ [RPAREN]" using Suc by simp
      then show ?thesis using assms ne by (simp add: balancedToks_def)
    qed
  qed
  then show ?thesis using assms ne by (simp add: balancedToks_def)
qed

lemma balancedToks_suffix:
  assumes "balancedToks ts"
  shows "parenSum (drop n ts) \<le> 0"
proof -
  have "0 \<le> parenSum (take n ts)" "parenSum ts = 0"
    using assms by (simp_all add: balancedToks_def)
  then show ?thesis using parenSum_take_drop [of n ts] by linarith
qed

lemma cleanAtom_not_special:
  "cleanAtom v \<Longrightarrow> v \<noteq> LPAREN \<and> v \<noteq> RPAREN \<and> v \<noteq> SYM_NOT \<and> \<not> isBinaryOp v"
  by (auto simp: cleanAtom_def isBinaryOp_def sym_defs isDelimiter_def)

lemma isBinaryOp_not_paren: "isBinaryOp v \<Longrightarrow> v \<noteq> LPAREN \<and> v \<noteq> RPAREN \<and> v \<noteq> SYM_NOT"
  by (auto simp: isBinaryOp_def sym_defs)

lemma treeTokens_form:
  "cleanTree t \<Longrightarrow>
   (\<exists>v. treeTokens t = [v] \<and> cleanAtom v) \<or>
   (\<exists>body. treeTokens t = LPAREN # body @ [RPAREN] \<and> balancedToks body)"
proof (induction t)
  case (ATOM v)
  then show ?case by simp
next
  case (NOT t)
  have nn: "balancedToks [SYM_NOT]"
    by (rule balancedToks_single) (simp_all add: sym_defs)
  have "balancedToks (treeTokens t)"
    using NOT balancedToks_paren balancedToks_single cleanAtom_not_special by auto
  then have "balancedToks ([SYM_NOT] @ treeTokens t)" using nn by (intro balancedToks_append)
  then show ?case by simp
next
  case (BIN v l r)
  have l: "balancedToks (treeTokens l)"
    using BIN balancedToks_paren balancedToks_single cleanAtom_not_special by auto
  have r: "balancedToks (treeTokens r)"
    using BIN balancedToks_paren balancedToks_single cleanAtom_not_special by auto
  have v: "balancedToks [v]"
    using BIN.prems isBinaryOp_not_paren by (intro balancedToks_single) auto
  have "balancedToks (treeTokens l @ [v] @ treeTokens r)"
    using l r v by (intro balancedToks_append)
  then show ?case by simp
qed

lemma treeTokens_balanced: "cleanTree t \<Longrightarrow> balancedToks (treeTokens t)"
  using treeTokens_form [of t] balancedToks_paren balancedToks_single cleanAtom_not_special
  by auto

lemma grouped_no_candidate:
  assumes "balancedToks body" "i < length (LPAREN # body @ [RPAREN])"
    "isBinaryOp ((LPAREN # body @ [RPAREN]) ! i)"
  shows "parenSum (drop (Suc i) (LPAREN # body @ [RPAREN])) < 0"
proof (cases i)
  case 0
  then show ?thesis using assms(3) isBinaryOp_not_paren by auto
next
  case (Suc j)
  show ?thesis
  proof (cases "j < length body")
    case True
    have "parenSum (drop (Suc j) body) \<le> 0" using assms(1) by (rule balancedToks_suffix)
    moreover have "LPAREN \<noteq> RPAREN" by (simp add: sym_defs)
    ultimately show ?thesis using Suc True by simp
  next
    case False
    then have "j = length body" using assms(2) Suc by simp
    then have "(LPAREN # body @ [RPAREN]) ! i = RPAREN" using Suc by (simp add: nth_append)
    then show ?thesis using assms(3) isBinaryOp_not_paren by auto
  qed
qed

lemma treeTokens_no_candidate:
  assumes "cleanTree t" "i < length (treeTokens t)" "isBinaryOp (treeTokens t ! i)"
  shows "parenSum (drop (Suc i) (treeTokens t)) < 0"
proof -
  from treeTokens_form [OF assms(1)] show ?thesis
  proof (elim disjE exE conjE)
    fix v assume "treeTokens t = [v]" "cleanAtom v"
    then show ?thesis using assms(2,3) cleanAtom_not_special by auto
  next
    fix body assume b: "treeTokens t = LPAREN # body @ [RPAREN]" "balancedToks body"
    show ?thesis using grouped_no_candidate [OF b(2)] assms(2,3) unfolding b(1) by blast
  qed
qed

lemma treeTokens_nonempty: "treeTokens t \<noteq> []"
  by (cases t) simp_all

lemma stripOuter_group:
  "isBalanced body \<Longrightarrow> stripOuter (LPAREN # body @ [RPAREN]) = stripOuter body"
  by (subst stripOuter.simps) (simp add: butlast_append)

lemma stripOuter_no_paren: "ts \<noteq> [] \<Longrightarrow> hd ts \<noteq> LPAREN \<Longrightarrow> stripOuter ts = ts"
  by (subst stripOuter.simps) simp

lemma candidate_neg: "cleanTree l \<Longrightarrow> \<not> splitCandidate (SYM_NOT # treeTokens l) i"
proof
  assume c: "cleanTree l" and s: "splitCandidate (SYM_NOT # treeTokens l) i"
  show False
  proof (cases i)
    case 0
    then show ?thesis using s isBinaryOp_not_paren by (auto simp: splitCandidate_def)
  next
    case (Suc j)
    then have j: "j < length (treeTokens l)" "isBinaryOp (treeTokens l ! j)"
      "parenSum (drop (Suc j) (treeTokens l)) = 0"
      using s by (auto simp: splitCandidate_def balanceAt_parenSum)
    then show ?thesis using treeTokens_no_candidate [OF c j(1,2)] by simp
  qed
qed

lemma candidate_bin:
  assumes "cleanTree l" "cleanTree r" "isBinaryOp v"
  shows "splitCandidate (treeTokens l @ [v] @ treeTokens r) i \<longleftrightarrow> i = length (treeTokens l)"
proof -
  let ?L = "treeTokens l" and ?R = "treeTokens r"
  have zl: "parenSum ?L = 0" and zr: "parenSum ?R = 0"
    using treeTokens_balanced assms(1,2) by (auto simp: balancedToks_def)
  have zv: "parenSum [v] = 0" using assms(3) isBinaryOp_not_paren by auto
  show ?thesis
  proof
    assume s: "splitCandidate (?L @ [v] @ ?R) i"
    show "i = length ?L"
    proof (rule ccontr)
      assume ne: "i \<noteq> length ?L"
      show False
      proof (cases "i < length ?L")
        case True
        then have "isBinaryOp (?L ! i)" using s by (simp add: splitCandidate_def nth_append)
        then have "parenSum (drop (Suc i) ?L) < 0"
          using treeTokens_no_candidate [OF assms(1) True] by simp
        moreover have "parenSum (drop (Suc i) (?L @ [v] @ ?R)) = parenSum (drop (Suc i) ?L)"
          using True zv zr by simp
        ultimately show ?thesis using s by (simp add: splitCandidate_def balanceAt_parenSum)
      next
        case False
        then obtain j where j: "i = length ?L + Suc j" using ne
          by (metis add_Suc_right less_imp_Suc_add linorder_neqE_nat)
        then have jl: "j < length ?R" using s by (simp add: splitCandidate_def)
        have "isBinaryOp (?R ! j)" using s j by (simp add: splitCandidate_def nth_append)
        then have "parenSum (drop (Suc j) ?R) < 0"
          using treeTokens_no_candidate [OF assms(2) jl] by simp
        moreover have "drop (Suc i) (?L @ [v] @ ?R) = drop (Suc j) ?R" using j by simp
        ultimately show ?thesis using s by (simp add: splitCandidate_def balanceAt_parenSum)
      qed
    qed
  next
    assume "i = length ?L"
    then show "splitCandidate (?L @ [v] @ ?R) i"
      using assms(3) zr by (simp add: splitCandidate_def balanceAt_parenSum)
  qed
qed

lemma stripOuter_bin:
  assumes "cleanTree l" "cleanTree r"
  shows "stripOuter (treeTokens l @ [v] @ treeTokens r) = treeTokens l @ [v] @ treeTokens r"
proof -
  let ?L = "treeTokens l" and ?R = "treeTokens r"
  from treeTokens_form [OF assms(1)] show ?thesis
  proof (elim disjE exE conjE)
    fix a assume "?L = [a]" "cleanAtom a"
    then show ?thesis using cleanAtom_not_special by (intro stripOuter_no_paren) auto
  next
    fix body assume b: "?L = LPAREN # body @ [RPAREN]" "balancedToks body"
    have r: "?R \<noteq> []" by (rule treeTokens_nonempty)
    have "butlast (tl (?L @ [v] @ ?R)) = (body @ [RPAREN]) @ ([v] @ butlast ?R)"
      using b(1) r by (simp add: butlast_append)
    moreover have "\<not> balancedToks ((body @ [RPAREN]) @ ([v] @ butlast ?R))"
    proof
      assume "balancedToks ((body @ [RPAREN]) @ ([v] @ butlast ?R))"
      then have "0 \<le> parenSum (take (length (body @ [RPAREN])) ((body @ [RPAREN]) @ ([v] @ butlast ?R)))"
        unfolding balancedToks_def by blast
      moreover have "LPAREN \<noteq> RPAREN" by (simp add: sym_defs)
      moreover have "parenSum body = 0" using b(2) by (simp add: balancedToks_def)
      ultimately show False by simp
    qed
    ultimately have "\<not> isBalanced (butlast (tl (?L @ [v] @ ?R)))"
      by (simp add: isBalanced_iff)
    then show ?thesis by (subst stripOuter.simps) simp
  qed
qed

lemma parseToAST_neg_at:
  "stripOuter toks = ts \<Longrightarrow> 2 \<le> length ts \<Longrightarrow> findSplit ts = - 1 \<Longrightarrow> hd ts = SYM_NOT \<Longrightarrow>
   parseToAST toks = NOT (parseToAST (tl ts))"
  using parseToAST_neg [of toks] by simp

lemma parseToAST_bin_at:
  "stripOuter toks = ts \<Longrightarrow> 2 \<le> length ts \<Longrightarrow> findSplit ts = int k \<Longrightarrow>
   parseToAST toks = BIN (ts ! k) (parseToAST (take k ts)) (parseToAST (drop (Suc k) ts))"
  using parseToAST_bin [of toks k] by simp

lemma parse_treeTokens: "cleanTree t \<Longrightarrow> parseToAST (treeTokens t) = t"
proof (induction t)
  case (ATOM v)
  have "stripOuter [v] = [v]"
    using ATOM cleanAtom_not_special by (intro stripOuter_no_paren) auto
  then show ?case by (simp add: parseToAST_single)
next
  case (NOT l)
  let ?inner = "SYM_NOT # treeTokens l"
  have c: "cleanTree l" using NOT.prems by simp
  have "balancedToks ?inner"
    using balancedToks_append [OF balancedToks_single [of SYM_NOT] treeTokens_balanced [OF c]]
    by (simp add: sym_defs)
  then have "stripOuter (treeTokens (NOT l)) = stripOuter ?inner"
    using stripOuter_group [of ?inner] by (simp add: isBalanced_iff)
  also have "\<dots> = ?inner" by (rule stripOuter_no_paren) (simp_all add: sym_defs)
  finally have s: "stripOuter (treeTokens (NOT l)) = ?inner" .
  have f: "findSplit ?inner = - 1" using candidate_neg [OF c] findSplit_none_iff by blast
  have "2 \<le> length ?inner" using treeTokens_nonempty [of l] by (cases "treeTokens l") auto
  then have "parseToAST (treeTokens (NOT l)) = NOT (parseToAST (tl ?inner))"
    using s f by (intro parseToAST_neg_at) simp_all
  then show ?case using NOT.IH [OF c] by simp
next
  case (BIN v l r)
  let ?L = "treeTokens l" and ?R = "treeTokens r"
  let ?inner = "?L @ [v] @ ?R"
  have c: "cleanTree l" "cleanTree r" "isBinaryOp v" using BIN.prems by simp_all
  have "balancedToks [v]" using c(3) isBinaryOp_not_paren by (intro balancedToks_single) auto
  then have "balancedToks ?inner"
    using treeTokens_balanced c(1,2) by (intro balancedToks_append) auto
  then have "stripOuter (treeTokens (BIN v l r)) = stripOuter ?inner"
    using stripOuter_group [of ?inner] by (simp add: isBalanced_iff)
  also have "\<dots> = ?inner" using c(1,2) by (rule stripOuter_bin)
  finally have s: "stripOuter (treeTokens (BIN v l r)) = ?inner" .
  have cand: "splitCandidate ?inner (length ?L)" using candidate_bin [OF c] by simp
  then have "findSplit ?inner \<noteq> - 1" using findSplit_none_iff by blast
  from findSplit_some [OF this] obtain k where k: "findSplit ?inner = int k"
    "splitCandidate ?inner k" by blast
  then have kl: "k = length ?L" using candidate_bin [OF c] by simp
  have "2 \<le> length ?inner" using treeTokens_nonempty [of l] by (cases ?L) auto
  then have "parseToAST (treeTokens (BIN v l r)) =
      BIN (?inner ! k) (parseToAST (take k ?inner)) (parseToAST (drop (Suc k) ?inner))"
    using s k(1) by (intro parseToAST_bin_at) simp_all
  then show ?case using kl BIN.IH c by simp
qed

lemma wellFormed_balanced: "wellFormed ts \<Longrightarrow> ts \<noteq> [] \<and> balancedToks ts"
proof (induction ts rule: wellFormed.induct)
  case (wf_atom a)
  then show ?case using cleanAtom_not_special balancedToks_single by auto
next
  case (wf_not ts)
  have "balancedToks ([SYM_NOT] @ ts)"
    using wf_not.IH by (intro balancedToks_append balancedToks_single) (simp_all add: sym_defs)
  then show ?case by simp
next
  case (wf_bin l r op)
  have "balancedToks [op]" using wf_bin.hyps(3) isBinaryOp_not_paren
    by (intro balancedToks_single) auto
  then have "balancedToks (l @ [op] @ r)" using wf_bin.IH by (intro balancedToks_append) auto
  then show ?case using wf_bin.IH by simp
next
  case (wf_paren ts)
  then show ?case using balancedToks_paren by simp
qed

lemma wellFormed_single:
  assumes "wellFormed [t]"
  shows "cleanAtom t"
proof -
  from wellFormed.simps [of "[t]", THEN iffD1, OF assms]
  consider (atom) a where "[t] = [a]" "cleanAtom a"
    | (neg) ts where "[t] = SYM_NOT # ts" "wellFormed ts"
    | (bin) l r op where "[t] = l @ [op] @ r" "wellFormed l" "wellFormed r" "isBinaryOp op"
    | (paren) ts where "[t] = LPAREN # ts @ [RPAREN]" "wellFormed ts"
    by blast
  then show ?thesis
  proof cases
    case atom
    then show ?thesis by simp
  next
    case neg
    then show ?thesis using wellFormed_balanced by auto
  next
    case bin
    then show ?thesis using wellFormed_balanced [of l] by (cases l) auto
  next
    case paren
    then show ?thesis by simp
  qed
qed

lemma wellFormed_split:
  assumes "wellFormed ts" "isBinaryOp op"
  shows "ts = l @ op # r \<Longrightarrow> parenSum r = 0 \<Longrightarrow> wellFormed l \<and> wellFormed r"
  using assms(1)
proof (induction ts arbitrary: l r rule: wellFormed.induct)
  case (wf_atom a)
  then have "a = op" by (cases l) auto
  then show ?case using wf_atom.hyps assms(2) cleanAtom_not_special by auto
next
  case (wf_not ts)
  show ?case
  proof (cases l)
    case Nil
    then show ?thesis using wf_not.prems(1) assms(2) isBinaryOp_not_paren by auto
  next
    case (Cons x l')
    then have "x = SYM_NOT" "ts = l' @ op # r" using wf_not.prems(1) by auto
    then have "wellFormed l' \<and> wellFormed r" using wf_not.IH wf_not.prems(2) by blast
    then show ?thesis using Cons \<open>x = SYM_NOT\<close> wellFormed.wf_not by auto
  qed
next
  case (wf_bin a b op')
  have zb: "parenSum b = 0" using wellFormed_balanced [OF wf_bin.hyps(2)]
    by (simp add: balancedToks_def)
  have zo: "parenSum [op'] = 0" using wf_bin.hyps(3) isBinaryOp_not_paren by auto
  from wf_bin.prems(1) have "a @ (op' # b) = l @ (op # r)" by simp
  then obtain us where us: "(a = l @ us \<and> us @ op' # b = op # r) \<or>
      (a @ us = l \<and> op' # b = us @ op # r)"
    unfolding append_eq_append_conv2 by blast
  then show ?case
  proof
    assume u: "a = l @ us \<and> us @ op' # b = op # r"
    show ?thesis
    proof (cases us)
      case Nil
      then show ?thesis using u wf_bin.hyps by auto
    next
      case (Cons u us')
      then have e: "u = op" "r = us' @ op' # b" "a = l @ op # us'" using u by auto
      have "parenSum us' = 0" using wf_bin.prems(2) e(2) zb zo by simp
      then have "wellFormed l \<and> wellFormed us'" using wf_bin.IH(1) [OF e(3)] by simp
      moreover then have "wellFormed (us' @ [op'] @ b)"
        using wf_bin.hyps(2,3) by (intro wellFormed.wf_bin) auto
      ultimately show ?thesis using e(2) by simp
    qed
  next
    assume u: "a @ us = l \<and> op' # b = us @ op # r"
    show ?thesis
    proof (cases us)
      case Nil
      then show ?thesis using u wf_bin.hyps by auto
    next
      case (Cons u' us')
      then have e: "u' = op'" "b = us' @ op # r" "l = a @ op' # us'" using u by auto
      have "wellFormed us' \<and> wellFormed r" using wf_bin.IH(2) [OF e(2) wf_bin.prems(2)] .
      moreover then have "wellFormed (a @ [op'] @ us')"
        using wf_bin.hyps(1,3) by (intro wellFormed.wf_bin) auto
      ultimately show ?thesis using e(3) by simp
    qed
  qed
next
  case (wf_paren ts)
  have np: "op \<noteq> LPAREN" "op \<noteq> RPAREN" using assms(2) isBinaryOp_not_paren by auto
  obtain l' where l: "l = LPAREN # l'" using wf_paren.prems(1) np by (cases l) auto
  then have eq: "ts @ [RPAREN] = l' @ op # r" using wf_paren.prems(1) by simp
  obtain r' where r: "r = r' @ [RPAREN]"
    using eq np by (cases r rule: rev_cases) auto
  then have t: "ts = l' @ op # r'" using eq by simp
  have "LPAREN \<noteq> RPAREN" by (simp add: sym_defs)
  then have "parenSum r' = 1" using wf_paren.prems(2) r by simp
  moreover have "r' = drop (Suc (length l')) ts" using t by simp
  moreover have "balancedToks ts" using wellFormed_balanced [OF wf_paren.hyps] by simp
  ultimately show ?case using balancedToks_suffix [of ts "Suc (length l')"] by simp
qed

lemma wellFormed_candidate:
  assumes "wellFormed ts" "splitCandidate ts k"
  shows "wellFormed (take k ts) \<and> wellFormed (drop (Suc k) ts)"
proof -
  have k: "k < length ts" "isBinaryOp (ts ! k)" "parenSum (drop (Suc k) ts) = 0"
    using assms(2) by (auto simp: splitCandidate_def balanceAt_parenSum)
  have "ts = take k ts @ ts ! k # drop (Suc k) ts" using k(1) by (simp add: id_take_nth_drop)
  then show ?thesis using wellFormed_split [OF assms(1) k(2) _ k(3)] by blast
qed

lemma wellFormed_ungroup:
  assumes "wellFormed (LPAREN # inner @ [RPAREN])" "balancedToks inner"
  shows "wellFormed inner"
proof -
  let ?x = "LPAREN # inner @ [RPAREN]"
  from wellFormed.simps [of ?x, THEN iffD1, OF assms(1)]
  consider (atom) a where "?x = [a]" "cleanAtom a"
    | (neg) ts where "?x = SYM_NOT # ts" "wellFormed ts"
    | (bin) l r op where "?x = l @ [op] @ r" "wellFormed l" "wellFormed r" "isBinaryOp op"
    | (paren) ts where "?x = LPAREN # ts @ [RPAREN]" "wellFormed ts"
    by blast
  then show ?thesis
  proof cases
    case atom
    then show ?thesis by simp
  next
    case neg
    then show ?thesis by (simp add: sym_defs)
  next
    case bin
    have np: "op \<noteq> LPAREN" "op \<noteq> RPAREN" using bin(4) isBinaryOp_not_paren by auto
    have ln: "l \<noteq> []" "balancedToks l" using wellFormed_balanced [OF bin(2)] by auto
    have rn: "r \<noteq> []" using wellFormed_balanced [OF bin(3)] by auto
    obtain l' where l: "l = LPAREN # l'" using bin(1) ln by (cases l) auto
    then have eq: "inner @ [RPAREN] = l' @ op # r" using bin(1) by simp
    obtain r' where r: "r = r' @ [RPAREN]" using eq rn by (cases r rule: rev_cases) auto
    then have i: "inner = l' @ op # r'" using eq by simp
    have "parenSum l' = - 1" using ln(2) l by (simp add: balancedToks_def)
    moreover have "take (length l') inner = l'" using i by simp
    ultimately have "\<not> 0 \<le> parenSum (take (length l') inner)" by simp
    then show ?thesis using assms(2) unfolding balancedToks_def by blast
  next
    case paren
    then show ?thesis by simp
  qed
qed

lemma wellFormed_negation:
  assumes "wellFormed (SYM_NOT # rest)" "\<And>i. \<not> splitCandidate (SYM_NOT # rest) i"
  shows "wellFormed rest"
proof -
  let ?x = "SYM_NOT # rest"
  from wellFormed.simps [of ?x, THEN iffD1, OF assms(1)]
  consider (atom) a where "?x = [a]" "cleanAtom a"
    | (neg) ts where "?x = SYM_NOT # ts" "wellFormed ts"
    | (bin) l r op where "?x = l @ [op] @ r" "wellFormed l" "wellFormed r" "isBinaryOp op"
    | (paren) ts where "?x = LPAREN # ts @ [RPAREN]" "wellFormed ts"
    by blast
  then show ?thesis
  proof cases
    case atom
    then show ?thesis using cleanAtom_not_special by auto
  next
    case neg
    then show ?thesis by simp
  next
    case bin
    have "parenSum r = 0" using wellFormed_balanced [OF bin(3)] by (simp add: balancedToks_def)
    then have "splitCandidate (l @ [op] @ r) (length l)"
      using bin(4) by (simp add: splitCandidate_def balanceAt_parenSum)
    then show ?thesis using assms(2) [of "length l"] bin(1) by simp
  next
    case paren
    then show ?thesis by (simp add: sym_defs)
  qed
qed

lemma wellFormed_stripOuter: "wellFormed ts \<Longrightarrow> wellFormed (stripOuter ts)"
proof (induction ts rule: stripOuter.induct)
  case (1 tokens)
  show ?case
  proof (cases "tokens \<noteq> [] \<and> hd tokens = LPAREN \<and> last tokens = RPAREN
         \<and> isBalanced (butlast (tl tokens))")
    case True
    have s: "stripOuter tokens = stripOuter (butlast (tl tokens))"
      using True by (subst stripOuter.simps) simp
    have ne: "LPAREN \<noteq> RPAREN" by (simp add: sym_defs)
    obtain x xs where t: "tokens = x # xs" using True by (cases tokens) auto
    have x: "x = LPAREN" using True t by simp
    have xs: "xs \<noteq> []" using True t x ne by auto
    then have "last xs = RPAREN" using True t by simp
    then have "xs = butlast xs @ [RPAREN]" using xs by (metis append_butlast_last_id)
    then have "tokens = LPAREN # butlast (tl tokens) @ [RPAREN]" using t x by simp
    then have "wellFormed (butlast (tl tokens))"
      using "1.prems" True wellFormed_ungroup [of "butlast (tl tokens)"]
      by (simp add: isBalanced_iff)
    then show ?thesis using "1.IH" True s by simp
  next
    case False
    then have "stripOuter tokens = tokens" by (subst stripOuter.simps) auto
    then show ?thesis using "1.prems" by simp
  qed
qed

lemma parse_wellFormed_clean: "wellFormed ts \<Longrightarrow> cleanTree (parseToAST ts)"
proof (induction "length ts" arbitrary: ts rule: less_induct)
  case less
  let ?tokens = "stripOuter ts"
  have wf: "wellFormed ?tokens" using less.prems by (rule wellFormed_stripOuter)
  have ne: "?tokens \<noteq> []" using wellFormed_balanced [OF wf] by simp
  have len: "length ?tokens \<le> length ts" by (rule length_stripOuter)
  show ?case
  proof (cases "length ?tokens = 1")
    case True
    then obtain t where t: "?tokens = [t]" by (cases ?tokens) auto
    then have "cleanAtom t" using wf wellFormed_single by simp
    then show ?thesis using parseToAST_single [OF t] by simp
  next
    case False
    moreover have "0 < length ?tokens" using ne by simp
    ultimately have two: "2 \<le> length ?tokens" by linarith
    show ?thesis
    proof (cases "findSplit ?tokens = - 1")
      case True
      then have none: "\<And>i. \<not> splitCandidate ?tokens i" using findSplit_none_iff by blast
      show ?thesis
      proof (cases "hd ?tokens = SYM_NOT")
        case hd: True
        then have t: "?tokens = SYM_NOT # tl ?tokens" using ne by (metis list.collapse)
        have "wellFormed (tl ?tokens)"
          using wf none t wellFormed_negation [of "tl ?tokens"] by metis
        moreover have "length (tl ?tokens) < length ts" using len ne by (cases ?tokens) auto
        ultimately have "cleanTree (parseToAST (tl ?tokens))" using less.hyps by blast
        then show ?thesis using parseToAST_neg [OF two True hd] by simp
      next
        case False
        have "cleanAtom ERR" by (simp add: cleanAtom_def sym_defs isSpace_def isDelimiter_def)
        then show ?thesis using parseToAST_err [OF two True False] by simp
      qed
    next
      case False
      from findSplit_some [OF False] obtain k where k: "findSplit ?tokens = int k"
        "splitCandidate ?tokens k" by blast
      have kl: "k < length ?tokens" "isBinaryOp (?tokens ! k)"
        using k(2) by (simp_all add: splitCandidate_def)
      have w: "wellFormed (take k ?tokens)" "wellFormed (drop (Suc k) ?tokens)"
        using wellFormed_candidate [OF wf k(2)] by simp_all
      have "length (take k ?tokens) < length ts" "length (drop (Suc k) ?tokens) < length ts"
        using kl(1) len by simp_all
      then have "cleanTree (parseToAST (take k ?tokens))"
        "cleanTree (parseToAST (drop (Suc k) ?tokens))"
        using less.hyps w by blast+
      then show ?thesis using parseToAST_bin [OF two k(1)] kl(2) by simp
    qed
  qed
qed

text \<open>
  Claim C1. For every well-formed token sequence, rendering the parse tree, tokenizing the
  canonical string and parsing again gives the same tree, and so the same canonical
  string: the canonical string is a fixed point of tokenize, parse and render. The parse
  tree of a well-formed sequence has atom tokens at its leaves, and this property of the
  tree alone is enough for the fixed point.
\<close>

theorem parse_render_roundtrip:
  "(wellFormed ts \<longrightarrow>
     cleanTree (parseToAST ts) \<and>
     parseToAST (tokenize (toFullString (parseToAST ts))) = parseToAST ts \<and>
     toFullString (parseToAST (tokenize (toFullString (parseToAST ts))))
       = toFullString (parseToAST ts)) \<and>
   (cleanTree (parseToAST ts) \<longrightarrow>
     parseToAST (tokenize (toFullString (parseToAST ts))) = parseToAST ts \<and>
     toFullString (parseToAST (tokenize (toFullString (parseToAST ts))))
       = toFullString (parseToAST ts))"
proof -
  have fixed: "parseToAST (tokenize (toFullString (parseToAST ts))) = parseToAST ts"
    if c: "cleanTree (parseToAST ts)"
    using tokenize_render [OF c] parse_treeTokens [OF c] by simp
  have "cleanTree (parseToAST ts)" if "wellFormed ts"
    using that by (rule parse_wellFormed_clean)
  then show ?thesis using fixed by auto
qed

theorem parse_render_roundtrip_witness:
  "wellFormed [SYM_NOT, [80], SYM_AND, LPAREN, [81], SYM_OR, [82], RPAREN] \<and>
   toFullString (parseToAST [SYM_NOT, [80], SYM_AND, LPAREN, [81], SYM_OR, [82], RPAREN])
     = [40, 40, 172, 32, 80, 41, 32, 8743, 32, 40, 81, 32, 8744, 32, 82, 41, 41] \<and>
   toFullString (parseToAST (tokenize
       [40, 40, 172, 32, 80, 41, 32, 8743, 32, 40, 81, 32, 8744, 32, 82, 41, 41]))
     = [40, 40, 172, 32, 80, 41, 32, 8743, 32, 40, 81, 32, 8744, 32, 82, 41, 41] \<and>
   cleanTree (parseToAST [[80], SYM_AND]) \<and>
   toFullString (parseToAST [[80], SYM_AND]) = [40, 80, 32, 8743, 32, 69, 82, 82, 41] \<and>
   toFullString (parseToAST (tokenize [40, 80, 32, 8743, 32, 69, 82, 82, 41]))
     = [40, 80, 32, 8743, 32, 69, 82, 82, 41]"
proof -
  let ?ts = "[SYM_NOT, [80], SYM_AND, LPAREN, [81], SYM_OR, [82], RPAREN]"
  have a: "cleanAtom [80]" "cleanAtom [81]" "cleanAtom [82]"
    by (simp_all add: cleanAtom_def isSpace_def isDelimiter_def)
  have b: "isBinaryOp SYM_AND" "isBinaryOp SYM_OR" by (simp_all add: isBinaryOp_def)
  have "wellFormed ([[81]] @ [SYM_OR] @ [[82]])"
    using a b by (intro wf_bin wf_atom)
  then have "wellFormed (LPAREN # ([[81]] @ [SYM_OR] @ [[82]]) @ [RPAREN])" by (rule wf_paren)
  moreover have "wellFormed (SYM_NOT # [[80]])" using a by (intro wf_not wf_atom)
  ultimately have "wellFormed ((SYM_NOT # [[80]]) @ [SYM_AND]
      @ (LPAREN # ([[81]] @ [SYM_OR] @ [[82]]) @ [RPAREN]))"
    using b by (intro wf_bin)
  then have w: "wellFormed ?ts" by simp
  have r: "toFullString (parseToAST ?ts)
     = [40, 40, 172, 32, 80, 41, 32, 8743, 32, 40, 81, 32, 8744, 32, 82, 41, 41]"
    by (simp add: parse_eval)
  from w parse_render_roundtrip [of ?ts]
  have "toFullString (parseToAST (tokenize (toFullString (parseToAST ?ts))))
      = toFullString (parseToAST ?ts)" by blast
  then have first: "toFullString (parseToAST (tokenize
       [40, 40, 172, 32, 80, 41, 32, 8743, 32, 40, 81, 32, 8744, 32, 82, 41, 41]))
     = [40, 40, 172, 32, 80, 41, 32, 8743, 32, 40, 81, 32, 8744, 32, 82, 41, 41]"
    by (simp only: r)
  have p: "parseToAST [[80], SYM_AND] = BIN SYM_AND (ATOM [80]) (ATOM ERR)"
    by (simp add: parse_eval)
  have c: "cleanTree (parseToAST [[80], SYM_AND])"
    unfolding p by (simp add: cleanAtom_def isBinaryOp_def isSpace_def isDelimiter_def sym_defs)
  have r2: "toFullString (parseToAST [[80], SYM_AND]) = [40, 80, 32, 8743, 32, 69, 82, 82, 41]"
    unfolding p by (simp add: sym_defs)
  from c parse_render_roundtrip [of "[[80], SYM_AND]"]
  have "toFullString (parseToAST (tokenize (toFullString (parseToAST [[80], SYM_AND]))))
      = toFullString (parseToAST [[80], SYM_AND])" by blast
  then have second: "toFullString (parseToAST (tokenize [40, 80, 32, 8743, 32, 69, 82, 82, 41]))
     = [40, 80, 32, 8743, 32, 69, 82, 82, 41]"
    by (simp only: r2)
  show ?thesis using w r first c r2 second by blast
qed

end
